theory Spec2Isabelle
  imports Complex_Main "HOL-Library.Sublist" "HOL-Library.AList" "HOL-Library.Log_Nat"
begin

section \<open>SSE frame parser: the line splitting of \<open>AIService._executeGeneration\<close>\<close>

text \<open>
  JavaScript strings are modelled as \<^typ>\<open>string\<close> (a list of characters) and
  \<open>s.length\<close> as \<^const>\<open>length\<close>. \<open>s.split('\n')\<close> never returns an
  empty array: the empty string gives one empty piece, and every newline starts a new piece.
\<close>

definition newline :: char where
  "newline = CHR 0x0A"

fun split_nl :: "string \<Rightarrow> string list" where
  "split_nl [] = [[]]"
| "split_nl (c # cs) =
     (if c = newline then [] # split_nl cs
      else (case split_nl cs of
              [] \<Rightarrow> [[c]]
            | l # ls \<Rightarrow> (c # l) # ls))"

text \<open>
  \<open>lines.pop() || ''\<close>: \<open>pop\<close> removes and returns the last element, or returns
  \<open>undefined\<close> on an empty array; \<open>|| ''\<close> turns \<open>undefined\<close> (and the empty
  string) into the empty string. The pair is (the array after the pop, the new partial).
\<close>

definition pop_partial :: "string list \<Rightarrow> string list \<times> string" where
  "pop_partial lines =
     (if lines = [] then ([], [])
      else (butlast lines, if last lines = [] then [] else last lines))"

text \<open>
  One iteration of the read loop up to the \<open>for\<close> over the lines:
  \<open>partial += chunk; lines = partial.split('\n'); partial = lines.pop() || ''\<close>.
\<close>

definition feed :: "string \<Rightarrow> string \<Rightarrow> string list \<times> string" where
  "feed partial chunk = pop_partial (split_nl (partial @ chunk))"

text \<open>
  The complete lines handed to the \<open>for\<close> loop over a whole sequence of decoded
  chunks, in order, together with the partial left when the stream is done.
\<close>

fun sse_lines :: "string \<Rightarrow> string list \<Rightarrow> string list \<times> string" where
  "sse_lines partial [] = ([], partial)"
| "sse_lines partial (chunk # chunks) =
     (let (lines, partial') = feed partial chunk;
          (rest, final) = sse_lines partial' chunks
      in (lines @ rest, final))"

section \<open>Decoded events and the stream demultiplexer\<close>

text \<open>
  \<open>line.startsWith('data: ')\<close> is \<^const>\<open>prefix\<close>, \<open>line.slice(6)\<close> is
  \<^term>\<open>drop 6\<close>. \<open>trim\<close> removes white space at both ends; among the characters
  of the model these are tab, line feed, vertical tab, form feed, carriage return, space
  and the no-break space.
\<close>

definition is_ws :: "char \<Rightarrow> bool" where
  "is_ws c \<longleftrightarrow> c \<in> {CHR 0x09, CHR 0x0A, CHR 0x0B, CHR 0x0C, CHR 0x0D, CHR 0x20, CHR 0xA0}"

definition trim :: "string \<Rightarrow> string" where
  "trim s = rev (dropWhile is_ws (rev (dropWhile is_ws s)))"

text \<open>
  The interface \<open>StreamChunk\<close>. A field the code reads defensively is optional in the
  model: \<open>json.choices &&\<close>, \<open>choice.delta?.content ?? ''\<close>. The index is an integer,
  as the backend sends it.
\<close>

record delta =
  delta_content :: "string option"

record choice =
  choice_index :: int
  choice_delta :: "delta option"

record StreamChunk =
  chunk_object :: string
  chunk_choices :: "choice list option"

text \<open>One invocation of \<open>onProgress(index, content, isComplete, tokenRate, totalTokens)\<close>.\<close>

record progress =
  p_index :: nat
  p_content :: string
  p_isComplete :: bool
  p_tokenRate :: int
  p_totalTokens :: nat

text \<open>
  The local variables of \<open>_executeGeneration\<close> that the loop mutates, and the effects it
  has had so far: \<open>clock_reads\<close> counts the calls of \<open>Date.now()\<close> (the call that sets
  \<open>startTime\<close> is number 0, so the next call is number \<open>clock_reads\<close>), and \<open>calls\<close> lists
  the invocations of \<open>onProgress\<close>, oldest first. The clock is a parameter
  \<open>now :: nat \<Rightarrow> int\<close>: the value in milliseconds that the k-th call returns; nothing is
  assumed about it.
\<close>

record gen_state =
  contentBuffers :: "string list"
  totalTokenCount :: nat
  clock_reads :: nat
  calls :: "progress list"

text \<open>
  JavaScript numbers are doubles. A double is modelled as the rational it denotes, and a
  division as the exact quotient rounded to the nearest double: 53 significant bits, a tie
  to the even mantissa. \<open>ilog2 x\<close> is the exponent \<open>e\<close> with \<open>2^e \<le> x < 2^(e+1)\<close>.
  The exponent is not bounded in the model; the quotients below are far from overflow
  and underflow while the elapsed milliseconds and the token count are below \<open>2^53\<close>,
  where the subtraction of the two clock readings and the additions to the count are
  exact as well.
\<close>

definition ilog2 :: "rat \<Rightarrow> int" where
  "ilog2 x =
     (let (p, q) = quotient_of x;
          c = bitlen p - bitlen q
      in if 2 powi c \<le> x then c else c - 1)"

definition round_even :: "rat \<Rightarrow> int" where
  "round_even y =
     (let f = \<lfloor>y\<rfloor>; r = y - of_int f
      in if r < 1 / 2 then f
         else if r > 1 / 2 then f + 1
         else if even f then f else f + 1)"

definition to_double :: "rat \<Rightarrow> rat" where
  "to_double x =
     (if x = 0 then 0
      else let a = \<bar>x\<bar>;
               ulp = 2 powi (ilog2 a - 52)
           in sgn x * of_int (round_even (a / ulp)) * ulp)"

definition double_div :: "rat \<Rightarrow> rat \<Rightarrow> rat" where
  "double_div a b = to_double (a / b)"

text \<open>
  \<open>Math.round\<close> gives the integer nearest to its argument, the upper one at a tie.
\<close>

definition js_round :: "rat \<Rightarrow> int" where
  "js_round x = \<lfloor>x + 1 / 2\<rfloor>"

text \<open>
  \<open>elapsedSeconds = (Date.now() - startTime) / 1000\<close>, then
  \<open>elapsedSeconds > 0 ? Math.round(totalTokenCount / elapsedSeconds) : 0\<close>.
\<close>

definition tokenRate_of :: "nat \<Rightarrow> int \<Rightarrow> int" where
  "tokenRate_of tokens elapsed_ms =
     (let elapsedSeconds = double_div (of_int elapsed_ms) 1000
      in if elapsedSeconds > 0 then js_round (double_div (of_nat tokens) elapsedSeconds) else 0)"

definition init_state :: "int \<Rightarrow> gen_state" where
  "init_state count =
     \<lparr>contentBuffers = replicate (nat count) [], totalTokenCount = 0,
      clock_reads = 1, calls = []\<rparr>"

definition delta_text :: "choice \<Rightarrow> string" where
  "delta_text c =
     (case choice_delta c of
        None \<Rightarrow> []
      | Some d \<Rightarrow> (case delta_content d of None \<Rightarrow> [] | Some t \<Rightarrow> t))"

text \<open>
  The body of \<open>for (const choice of json.choices)\<close>. \<open>onProgress\<close> says whether a
  callback was passed.
\<close>

definition apply_choice :: "(nat \<Rightarrow> int) \<Rightarrow> int \<Rightarrow> bool \<Rightarrow> gen_state \<Rightarrow> choice \<Rightarrow> gen_state" where
  "apply_choice now count onProgress s c =
     (let index = choice_index c;
          delta = delta_text c
      in if delta \<noteq> [] \<and> index \<ge> 0 \<and> index < count then
           let bufs = (contentBuffers s)[nat index := contentBuffers s ! nat index @ delta];
               tokens = totalTokenCount s + length delta;
               elapsed = now (clock_reads s) - now 0;
               tokenRate = tokenRate_of tokens elapsed;
               s' = s\<lparr>contentBuffers := bufs, totalTokenCount := tokens,
                       clock_reads := Suc (clock_reads s)\<rparr>
           in if onProgress then
                s'\<lparr>calls := calls s @
                   [\<lparr>p_index = nat index, p_content = bufs ! nat index, p_isComplete = False,
                     p_tokenRate = tokenRate, p_totalTokens = tokens\<rparr>]\<rparr>
              else s'
         else s)"

text \<open>What follows \<open>JSON.parse\<close> inside the \<open>try\<close>.\<close>

definition process_chunk :: "(nat \<Rightarrow> int) \<Rightarrow> int \<Rightarrow> bool \<Rightarrow> gen_state \<Rightarrow> StreamChunk \<Rightarrow> gen_state" where
  "process_chunk now count onProgress s json =
     (case chunk_choices json of
        None \<Rightarrow> s
      | Some cs \<Rightarrow> if length cs > 0 then foldl (apply_choice now count onProgress) s cs else s)"

text \<open>
  The body of \<open>for (const line of lines)\<close>. \<open>JSON.parse\<close> is the parameter
  \<open>decode\<close>, which returns \<open>None\<close> where \<open>JSON.parse\<close> throws; the \<open>catch\<close> logs a
  warning and the loop goes on with the next line.
\<close>

definition process_line ::
  "(string \<Rightarrow> StreamChunk option) \<Rightarrow> (nat \<Rightarrow> int) \<Rightarrow> int \<Rightarrow> bool \<Rightarrow> gen_state \<Rightarrow> string \<Rightarrow> gen_state" where
  "process_line decode now count onProgress s line =
     (if \<not> prefix ''data: '' line then s
      else let data = trim (drop 6 line)
           in if data = ''[DONE]'' then s
              else (case decode data of
                      None \<Rightarrow> s
                    | Some json \<Rightarrow> process_chunk now count onProgress s json))"

text \<open>
  The transport. \<open>fetch\<close> rejects, or resolves with a response that is not \<open>ok\<close>, has no
  body, or has a body; each \<open>reader.read()\<close> resolves with a chunk (its text as the
  decoder returns it) or rejects, and the list ends where \<open>read\<close> reports \<open>done\<close>.
\<close>

datatype gen_error =
  AbortError
  | NetworkError
  | HttpError nat string
  | StreamNotAvailable

datatype read = Value string | Rejected gen_error

datatype response =
  FetchRejected gen_error
  | NotOk nat string
  | NoBody
  | Body "read list"

text \<open>The \<open>while (true)\<close> loop; a rejected read leaves the loop by the exception.\<close>

fun read_loop ::
  "(string \<Rightarrow> StreamChunk option) \<Rightarrow> (nat \<Rightarrow> int) \<Rightarrow> int \<Rightarrow> bool \<Rightarrow>
   string \<Rightarrow> gen_state \<Rightarrow> read list \<Rightarrow> gen_state \<times> gen_error option" where
  "read_loop decode now count onProgress partial s [] = (s, None)"
| "read_loop decode now count onProgress partial s (Rejected e # rest) = (s, Some e)"
| "read_loop decode now count onProgress partial s (Value chunk # rest) =
     (let (lines, partial') = feed partial chunk;
          s' = foldl (process_line decode now count onProgress) s lines
      in read_loop decode now count onProgress partial' s' rest)"

text \<open>
  After the loop: the final rate, then \<open>for (let i = 0; i < count; i++)\<close>, which
  collects the results and reports each index whose content is not empty.
\<close>

definition final_step :: "bool \<Rightarrow> int \<Rightarrow> gen_state \<times> string list \<Rightarrow> nat \<Rightarrow> gen_state \<times> string list" where
  "final_step onProgress finalTokenRate acc i =
     (let (s, results) = acc;
          content = contentBuffers s ! i;
          results' = results @ [content]
      in if onProgress \<and> length content > 0 then
           (s\<lparr>calls := calls s @
               [\<lparr>p_index = i, p_content = content, p_isComplete = True,
                 p_tokenRate = finalTokenRate, p_totalTokens = totalTokenCount s\<rparr>]\<rparr>,
            results')
         else (s, results'))"

definition finalize :: "(nat \<Rightarrow> int) \<Rightarrow> int \<Rightarrow> bool \<Rightarrow> gen_state \<Rightarrow> gen_state \<times> string list" where
  "finalize now count onProgress s =
     (let elapsed = now (clock_reads s) - now 0;
          finalTokenRate = tokenRate_of (totalTokenCount s) elapsed;
          s1 = s\<lparr>clock_reads := Suc (clock_reads s)\<rparr>
      in foldl (final_step onProgress finalTokenRate) (s1, []) [0..<nat count])"

text \<open>
  \<open>_executeGeneration\<close>: the state holds what the function did (the callbacks it made),
  the second component how its promise settles: \<open>Inl\<close> the error thrown, \<open>Inr\<close> the
  array returned.
\<close>

definition executeGeneration ::
  "(string \<Rightarrow> StreamChunk option) \<Rightarrow> (nat \<Rightarrow> int) \<Rightarrow> int \<Rightarrow> bool \<Rightarrow> response \<Rightarrow>
   gen_state \<times> (gen_error + string list)" where
  "executeGeneration decode now count onProgress resp =
     (case resp of
        FetchRejected e \<Rightarrow> (init_state count, Inl e)
      | NotOk status text \<Rightarrow> (init_state count, Inl (HttpError status text))
      | NoBody \<Rightarrow> (init_state count, Inl StreamNotAvailable)
      | Body reads \<Rightarrow>
          (case read_loop decode now count onProgress [] (init_state count) reads of
             (s, Some e) \<Rightarrow> (s, Inl e)
           | (s, None) \<Rightarrow>
               (let (s', results) = finalize now count onProgress s in (s', Inr results))))"

section \<open>Notions used to state the properties of the demultiplexer\<close>

text \<open>The choices an event carries, and the choices of a line and of a whole stream.\<close>

definition choices_of :: "StreamChunk \<Rightarrow> choice list" where
  "choices_of json = (case chunk_choices json of None \<Rightarrow> [] | Some cs \<Rightarrow> cs)"

definition line_choices :: "(string \<Rightarrow> StreamChunk option) \<Rightarrow> string \<Rightarrow> choice list" where
  "line_choices decode line =
     (if \<not> prefix ''data: '' line then []
      else let data = trim (drop 6 line)
           in if data = ''[DONE]'' then []
              else (case decode data of None \<Rightarrow> [] | Some json \<Rightarrow> choices_of json))"

definition stream_choices :: "(string \<Rightarrow> StreamChunk option) \<Rightarrow> string list \<Rightarrow> choice list" where
  "stream_choices decode chunks = concat (map (line_choices decode) (fst (sse_lines [] chunks)))"

text \<open>
  The concatenation, in arrival order, of the delta texts that a sequence of choices
  carries for index \<open>i\<close>.
\<close>

definition deltas_for :: "nat \<Rightarrow> choice list \<Rightarrow> string" where
  "deltas_for i cs = concat (map delta_text (filter (\<lambda>c. choice_index c = int i) cs))"

text \<open>
  A choice is applied when it passes the guard \<open>delta && index >= 0 && index < count\<close>;
  \<open>tokens_applied\<close> is the sum of the lengths of the deltas applied.
\<close>

definition applied :: "int \<Rightarrow> choice \<Rightarrow> bool" where
  "applied count c \<longleftrightarrow> delta_text c \<noteq> [] \<and> choice_index c \<ge> 0 \<and> choice_index c < count"

definition tokens_applied :: "int \<Rightarrow> choice list \<Rightarrow> nat" where
  "tokens_applied count cs = sum_list (map (\<lambda>c. length (delta_text c)) (filter (applied count) cs))"

text \<open>The callbacks that the final loop makes, as a list.\<close>

definition final_report :: "string list \<Rightarrow> nat \<Rightarrow> int \<Rightarrow> nat \<Rightarrow> progress" where
  "final_report bufs tokens rate i =
     \<lparr>p_index = i, p_content = bufs ! i, p_isComplete = True,
      p_tokenRate = rate, p_totalTokens = tokens\<rparr>"

definition final_reports :: "int \<Rightarrow> string list \<Rightarrow> nat \<Rightarrow> int \<Rightarrow> progress list" where
  "final_reports count bufs tokens rate =
     map (final_report bufs tokens rate) (filter (\<lambda>i. bufs ! i \<noteq> []) [0..<nat count])"

text \<open>
  Concrete inputs: a choice and an event with one delta, and Scenario A of the
  specification as a stream. Its decoder stands for \<open>JSON.parse\<close> on four payloads
  (written \<open>A\<close> to \<open>D\<close> for short) and fails on every other payload; the stream is
  cut inside a line, has an empty line, a malformed payload, an index out of range and the
  \<open>[DONE]\<close> line.
\<close>

definition mk_choice :: "int \<Rightarrow> string \<Rightarrow> choice" where
  "mk_choice i t = \<lparr>choice_index = i, choice_delta = Some \<lparr>delta_content = Some t\<rparr>\<rparr>"

definition delta_event :: "int \<Rightarrow> string \<Rightarrow> StreamChunk" where
  "delta_event i t =
     \<lparr>chunk_object = ''chat.completion.chunk'',
      chunk_choices = Some [\<lparr>choice_index = i, choice_delta = Some \<lparr>delta_content = Some t\<rparr>\<rparr>]\<rparr>"

definition scenario_decode :: "string \<Rightarrow> StreamChunk option" where
  "scenario_decode payload =
     (if payload = ''A'' then Some (delta_event 0 ''ab'')
      else if payload = ''B'' then Some (delta_event 1 ''cd'')
      else if payload = ''C'' then Some (delta_event 0 ''c'')
      else if payload = ''D'' then Some (delta_event 3 ''zz'')
      else None)"

definition scenario_chunks :: "string list" where
  "scenario_chunks =
     [''data: A'' @ [newline] @ ''da'', ''ta: B'' @ [newline, newline] @ ''data: {oops'' @ [newline],
      ''data: D'' @ [newline] @ ''data: C '' @ [newline] @ ''data: [DONE]'' @ [newline]]"

section \<open>The request: \<open>AIService.generateMultipleResponses\<close>\<close>

text \<open>
  The first argument is one string or an array of strings. \<open>promptPrefix\<close> is the
  translation \<open>i18n.t('aiService.promptPrefix')\<close>, a parameter.
\<close>

datatype userMessage = Single string | Multiple "string list"

definition prompt_template :: "string \<Rightarrow> string \<Rightarrow> string" where
  "prompt_template promptPrefix msg =
     ''User: '' @ promptPrefix @ [newline] @ msg @ [newline, newline] @
     ''Assistant: <think>'' @ [newline] @ ''</think>''"

definition build_contents :: "string \<Rightarrow> userMessage \<Rightarrow> int \<Rightarrow> string list" where
  "build_contents promptPrefix userMessage count =
     (case userMessage of
        Multiple prompts \<Rightarrow> prompts
      | Single msg \<Rightarrow> replicate (nat count) (prompt_template promptPrefix msg))"

definition actualCount :: "userMessage \<Rightarrow> int \<Rightarrow> int" where
  "actualCount userMessage count =
     (case userMessage of Multiple prompts \<Rightarrow> int (length prompts) | Single msg \<Rightarrow> count)"

definition finalMaxTokens :: "userMessage \<Rightarrow> int option \<Rightarrow> int" where
  "finalMaxTokens userMessage maxTokens =
     (let defaultMaxTokens = (case userMessage of Multiple prompts \<Rightarrow> 4000 | Single msg \<Rightarrow> 800)
      in case maxTokens of None \<Rightarrow> defaultMaxTokens | Some m \<Rightarrow> m)"

text \<open>
  The body of the POST request; its other fields (sampling parameters, \<open>stream\<close>,
  \<open>password\<close>) do not depend on the arguments.
\<close>

record request_body =
  body_contents :: "string list"
  body_max_tokens :: int

text \<open>
  The call: the request that \<open>_executeGeneration\<close> sends, and what it does with the
  response to it.
\<close>

definition generateMultipleResponses ::
  "(string \<Rightarrow> StreamChunk option) \<Rightarrow> (nat \<Rightarrow> int) \<Rightarrow> string \<Rightarrow>
   userMessage \<Rightarrow> int \<Rightarrow> bool \<Rightarrow> int option \<Rightarrow> response \<Rightarrow>
   request_body \<times> gen_state \<times> (gen_error + string list)" where
  "generateMultipleResponses decode now promptPrefix userMessage count onProgress maxTokens resp =
     (\<lparr>body_contents = build_contents promptPrefix userMessage count,
       body_max_tokens = finalMaxTokens userMessage maxTokens\<rparr>,
      executeGeneration decode now (actualCount userMessage count) onProgress resp)"

section \<open>The page: results, pending updates, throttle timer\<close>

record GeneratedResult =
  result_id :: string
  result_content :: string
  isLoading :: bool

datatype message =
  DETAIL_READY nat
  | UPDATE_CONTENT nat string
  | GENERATION_COMPLETE
  | GENERATION_ERROR

text \<open>
  The timeout that \<open>updateTimeoutRef\<close> holds is set by the callback of
  \<open>handleGenerate\<close> or by the one of \<open>handleContinueGenerate\<close>; the two differ in what
  runs when it fires.
\<close>

datatype timer_kind = GenerateTimer | ContinueTimer

text \<open>
  The state of \<open>ChatPage\<close> that the generation handlers read and write.
  \<open>updateBuffer\<close> is the \<open>Map\<close> from index to content, in insertion order
  (\<open>updateBuffer.current\<close> and \<open>globalState.updateBuffer\<close> are the same object);
  \<open>updateTimeout\<close> is the pending timeout, if any, with the time in milliseconds at which
  it is due; \<open>chatPageResults\<close> is the item of that name in \<open>localStorage\<close>, parsed;
  \<open>channel\<close> lists the messages posted on the broadcast channel, oldest first.
  The model is of the mounted component. A state setter takes effect at once, and
  \<open>renderPending\<close> says that a setter has changed the state since the component was
  last rendered: a number counts as changed when it differs, an array or a set always,
  since the handlers build a new one. The effect of the component that copies
  \<open>results\<close> into the item again in idle time is not part of the handlers and is
  left out.
\<close>

record page_state =
  results :: "GeneratedResult list"
  updateBuffer :: "(nat \<times> string) list"
  updateTimeout :: "(nat \<times> timer_kind) option"
  chatPageResults :: "GeneratedResult list option"
  channel :: "message list"
  tokenRate :: int
  totalTokens :: nat
  completedIndexes :: "nat set"
  isGenerating :: bool
  isContinuing :: bool
  renderPending :: bool

text \<open>
  \<open>prev.map((result, i) => { const update = updates.get(i); return update ? {...result,
  content: update.content, isLoading: false} : result })\<close>
\<close>

definition merge_updates :: "(nat \<times> string) list \<Rightarrow> GeneratedResult list \<Rightarrow> GeneratedResult list" where
  "merge_updates updates prev =
     map (\<lambda>(result, i).
            case map_of updates i of
              Some content \<Rightarrow> result\<lparr>result_content := content, isLoading := False\<rparr>
            | None \<Rightarrow> result)
         (zip prev [0..<length prev])"

text \<open>
  \<open>flushUpdates\<close>. It works on a copy of the pending map and does not clear the map;
  \<open>posted_for\<close> are the messages that \<open>updates.forEach\<close> posts.
\<close>

definition posted_for :: "(nat \<times> string) list \<Rightarrow> message list" where
  "posted_for updates = map (\<lambda>(index, content). UPDATE_CONTENT index content) updates"

definition flushUpdates :: "page_state \<Rightarrow> page_state" where
  "flushUpdates s =
     (if length (updateBuffer s) > 0 then
        let updates = updateBuffer s;
            posted = posted_for updates;
            newResults = merge_updates updates (results s)
        in s\<lparr>channel := channel s @ posted,
             results := newResults,
             chatPageResults := Some newResults,
             renderPending := True\<rparr>
      else s)"

text \<open>
  \<open>updateSessionStorage\<close>: the body of \<open>updateBuffer.current.forEach\<close> on the parsed
  item, then the write if some entry was in range.
\<close>

definition patch_saved :: "GeneratedResult list \<times> bool \<Rightarrow> nat \<times> string \<Rightarrow> GeneratedResult list \<times> bool" where
  "patch_saved acc u =
     (let (saved, hasUpdate) = acc; (index, content) = u
      in if index < length saved
         then (saved[index := (saved ! index)\<lparr>result_content := content, isLoading := False\<rparr>], True)
         else (saved, hasUpdate))"

definition updateSessionStorage :: "page_state \<Rightarrow> page_state" where
  "updateSessionStorage s =
     (case chatPageResults s of
        None \<Rightarrow> s
      | Some saved \<Rightarrow>
          (let (saved', hasUpdate) = foldl patch_saved (saved, False) (updateBuffer s)
           in if hasUpdate then s\<lparr>chatPageResults := Some saved'\<rparr> else s))"

text \<open>
  \<open>setTokenRate(currentTokenRate); setTotalTokens(currentTotalTokens)\<close>, with which
  both progress callbacks start.
\<close>

definition setTokenStats :: "int \<Rightarrow> nat \<Rightarrow> page_state \<Rightarrow> page_state" where
  "setTokenStats rate tokens s =
     s\<lparr>tokenRate := rate, totalTokens := tokens,
       renderPending := renderPending s \<or> rate \<noteq> tokenRate s \<or> tokens \<noteq> totalTokens s\<rparr>"

text \<open>
  The progress callback that \<open>handleGenerate\<close> passes, called at time \<open>t\<close>
  (milliseconds).
\<close>

definition onProgress_generate :: "nat \<Rightarrow> page_state \<Rightarrow> progress \<Rightarrow> page_state" where
  "onProgress_generate t s p =
     (let s1 = setTokenStats (p_tokenRate p) (p_totalTokens p) s;
          s2 = s1\<lparr>updateBuffer := AList.update (p_index p) (p_content p) (updateBuffer s1)\<rparr>;
          s3 = (if p_isComplete p
                then s2\<lparr>completedIndexes := insert (p_index p) (completedIndexes s2),
                       renderPending := True\<rparr>
                else s2);
          hasEnoughContent = length (p_content p) > 100
      in if hasEnoughContent \<or> p_isComplete p
         then updateSessionStorage (flushUpdates (s3\<lparr>updateTimeout := None\<rparr>))
         else s3\<lparr>updateTimeout := Some (t + 300, GenerateTimer)\<rparr>)"

text \<open>
  The progress callback that \<open>handleContinueGenerate\<close> passes; \<open>contexts\<close> are the
  contents of the results when the handler started. \<open>contexts[index] || ''\<close> is the
  empty string out of range.
\<close>

definition onProgress_continue :: "string list \<Rightarrow> nat \<Rightarrow> page_state \<Rightarrow> progress \<Rightarrow> page_state" where
  "onProgress_continue contexts t s p =
     (let s1 = setTokenStats (p_tokenRate p) (p_totalTokens p) s;
          originalContent = (if p_index p < length contexts then contexts ! p_index p else []);
          newContent = originalContent @ [newline, newline] @ p_content p;
          s2 = s1\<lparr>updateBuffer := AList.update (p_index p) newContent (updateBuffer s1)\<rparr>;
          s3 = (if p_isComplete p
                then s2\<lparr>completedIndexes := insert (p_index p) (completedIndexes s2),
                       renderPending := True\<rparr>
                else s2);
          hasEnoughContent = length (p_content p) > 100
      in if hasEnoughContent \<or> p_isComplete p
         then flushUpdates (s3\<lparr>updateTimeout := None\<rparr>)
         else s3\<lparr>updateTimeout := Some (t + 300, ContinueTimer)\<rparr>)"

text \<open>
  \<open>ChatPage\<close> has an effect without a dependency list, whose cleanup starts with
  \<open>if (updateTimeoutRef.current) clearTimeout(updateTimeoutRef.current)\<close>. React runs
  the cleanup of such an effect before every re-render of the component, not only when
  the component is unmounted; the rest of the cleanup copies the refs to the global
  state, which are the same objects. The ref keeps the handle of a timeout that was
  cleared or has fired, and clearing such a handle does nothing, so the model forgets it.
\<close>

definition effect_cleanup :: "page_state \<Rightarrow> page_state" where
  "effect_cleanup s = s\<lparr>updateTimeout := None\<rparr>"

definition rerender :: "page_state \<Rightarrow> page_state" where
  "rerender s = (if renderPending s then effect_cleanup (s\<lparr>renderPending := False\<rparr>) else s)"

text \<open>
  The event loop reaches time \<open>t\<close>. React has queued the re-render when the state
  changed, at least 300 ms before a timeout set since then is due, so a pending
  re-render comes first; then a pending timeout that is due runs its callback.
\<close>

definition advance_to :: "nat \<Rightarrow> page_state \<Rightarrow> page_state" where
  "advance_to t s =
     (let s0 = rerender s
      in case updateTimeout s0 of
           None \<Rightarrow> s0
         | Some (due, kind) \<Rightarrow>
             if due \<le> t then
               (let s1 = flushUpdates (s0\<lparr>updateTimeout := None\<rparr>)
                in case kind of GenerateTimer \<Rightarrow> updateSessionStorage s1 | ContinueTimer \<Rightarrow> s1)
             else s0)"

text \<open>
  What happens on the page while a run is active: a progress report is delivered at a time,
  or the event loop gets a turn at a time.
\<close>

datatype page_event = Report nat progress | Elapse nat

definition page_step ::
  "(nat \<Rightarrow> page_state \<Rightarrow> progress \<Rightarrow> page_state) \<Rightarrow> page_state \<Rightarrow> page_event \<Rightarrow> page_state" where
  "page_step callback s e =
     (case e of Report t p \<Rightarrow> callback t s p | Elapse t \<Rightarrow> advance_to t s)"

fun reports_of :: "page_event list \<Rightarrow> progress list" where
  "reports_of [] = []"
| "reports_of (Report t p # es) = p # reports_of es"
| "reports_of (Elapse t # es) = reports_of es"

text \<open>\<open>handleStopGenerate\<close>.\<close>

definition handleStopGenerate :: "page_state \<Rightarrow> page_state" where
  "handleStopGenerate s =
     (let s1 = s\<lparr>updateTimeout := None\<rparr>;
          newResults =
            (if length (updateBuffer s1) > 0 then
               let updates = updateBuffer s1
               in map (\<lambda>(result, i).
                         case map_of updates i of
                           Some content \<Rightarrow> result\<lparr>result_content := content, isLoading := False\<rparr>
                         | None \<Rightarrow> result\<lparr>isLoading := False\<rparr>)
                      (zip (results s1) [0..<length (results s1)])
             else map (\<lambda>result. result\<lparr>isLoading := False\<rparr>) (results s1))
      in s1\<lparr>results := newResults, chatPageResults := Some newResults, isGenerating := False,
            renderPending := True\<rparr>)"

text \<open>
  The \<open>catch\<close> block of \<open>handleGenerate\<close>, entered when \<open>generateMultipleResponses\<close>
  rejects (with the abort error after a stop, or with a transport error).
\<close>

definition generate_catch :: "page_state \<Rightarrow> page_state" where
  "generate_catch s =
     s\<lparr>results := map (\<lambda>result. result\<lparr>isLoading := False\<rparr>) (results s),
       channel := channel s @ [GENERATION_ERROR],
       renderPending := True\<rparr>"

text \<open>
  The code of \<open>handleGenerate\<close> after the \<open>await\<close> returns, and the save it schedules
  200 ms later.
\<close>

definition generate_completed :: "page_state \<Rightarrow> page_state" where
  "generate_completed s =
     (let s1 = updateSessionStorage (flushUpdates (s\<lparr>updateTimeout := None\<rparr>))
      in s1\<lparr>channel := channel s1 @ [GENERATION_COMPLETE]\<rparr>)"

definition final_save :: "page_state \<Rightarrow> page_state" where
  "final_save s = s\<lparr>chatPageResults := Some (merge_updates (updateBuffer s) (results s))\<rparr>"

text \<open>The same for \<open>handleContinueGenerate\<close>.\<close>

definition continue_completed :: "page_state \<Rightarrow> page_state" where
  "continue_completed s =
     (let s1 = flushUpdates (s\<lparr>updateTimeout := None\<rparr>)
      in s1\<lparr>channel := channel s1 @ [GENERATION_COMPLETE]\<rparr>)"

text \<open>\<open>`result-${i}`\<close>: the decimal digits of a number.\<close>

fun digits :: "nat \<Rightarrow> string" where
  "digits n =
     (if n < 10 then [char_of (48 + n)]
      else digits (n div 10) @ [char_of (48 + n mod 10)])"

definition placeholders :: "nat \<Rightarrow> GeneratedResult list" where
  "placeholders totalCount =
     map (\<lambda>i. \<lparr>result_id = ''result-'' @ digits i, result_content = [], isLoading = True\<rparr>)
       [0..<totalCount]"

text \<open>
  The synchronous start of \<open>handleGenerate\<close>, before the request is sent. It does not
  touch \<open>updateBuffer\<close> or the timeout.
\<close>

definition start_generate :: "nat \<Rightarrow> page_state \<Rightarrow> page_state" where
  "start_generate totalCount s =
     s\<lparr>isGenerating := True, chatPageResults := None, completedIndexes := {},
       tokenRate := 0, totalTokens := 0, results := placeholders totalCount,
       renderPending := True\<rparr>"

text \<open>The page as first mounted, with nothing in \<open>localStorage\<close>.\<close>

definition fresh_page :: page_state where
  "fresh_page =
     \<lparr>results = [], updateBuffer = [], updateTimeout = None, chatPageResults = None,
      channel = [], tokenRate = 0, totalTokens = 0, completedIndexes = {},
      isGenerating = False, isContinuing = False, renderPending = False\<rparr>"

text \<open>
  Scenario D of the specification, on a fresh page with 8 streams: a report for index 0
  at time 0 and, after a turn of the event loop, one at time 50, both short; then the
  event loop reaches time \<open>T\<close>.
\<close>

definition short_report :: "nat \<Rightarrow> string \<Rightarrow> progress" where
  "short_report i c =
     \<lparr>p_index = i, p_content = c, p_isComplete = False, p_tokenRate = 0,
      p_totalTokens = length c\<rparr>"

definition scenario_D :: "nat \<Rightarrow> page_state" where
  "scenario_D T =
     advance_to T
       (onProgress_generate 50
          (advance_to 50
             (onProgress_generate 0 (start_generate 8 fresh_page) (short_report 0 ''Once'')))
          (short_report 0 ''Once upon''))"

text \<open>
  \<open>handleGenerate\<close>: the start, the run with the prompt as one string, then the code
  after the \<open>await\<close> with the save it schedules, or the \<open>catch\<close> block. \<open>evs\<close> is
  the order in which the progress reports of the run and the turns of the event loop
  reached the page. The \<open>finally\<close> block resets \<open>isGenerating\<close> when the abort
  controller is still the one of this run, which the model takes for granted.
\<close>

definition handleGenerate ::
  "(string \<Rightarrow> StreamChunk option) \<Rightarrow> (nat \<Rightarrow> int) \<Rightarrow> string \<Rightarrow> string \<Rightarrow> nat \<Rightarrow>
   response \<Rightarrow> page_event list \<Rightarrow> page_state \<Rightarrow> page_state" where
  "handleGenerate decode now promptPrefix userPrompt totalCount resp evs s =
     (let s0 = start_generate totalCount s;
          run = generateMultipleResponses decode now promptPrefix (Single userPrompt)
                  (int totalCount) True None resp;
          s1 = foldl (page_step onProgress_generate) s0 evs;
          s2 = (case snd (snd run) of
                  Inr texts \<Rightarrow> final_save (generate_completed s1)
                | Inl e \<Rightarrow> generate_catch s1)
      in s2\<lparr>isGenerating := False, renderPending := True\<rparr>)"

text \<open>
  A run that fails: on a fresh page with 8 streams the backend sends the delta
  \<open>(0, "ab")\<close>, then the next read is rejected with a network error. The report of the
  delta reaches the page at 1000 ms, the event loop gets a turn, the run fails, and then
  the event loop reaches time \<open>T\<close>.
\<close>

definition failed_response :: response where
  "failed_response = Body [Value (''data: A'' @ [newline]), Rejected NetworkError]"

definition failed_run_events :: "page_event list" where
  "failed_run_events =
     [Report 1000 \<lparr>p_index = 0, p_content = ''ab'', p_isComplete = False, p_tokenRate = 2,
                   p_totalTokens = 2\<rparr>,
      Elapse 1010]"

definition failure_scenario :: "nat \<Rightarrow> page_state" where
  "failure_scenario T =
     advance_to T
       (handleGenerate scenario_decode (\<lambda>k. 1000 * int k) ''P'' ''Q'' 8 failed_response
          failed_run_events fresh_page)"

text \<open>
  \<open>handleContinueGenerate\<close>. The guard, then the run with the contents of the results
  as prompts, then the code after the \<open>await\<close> with the save it schedules, or the
  \<open>catch\<close> block. \<open>evs\<close> is the order in which the progress reports of the run and the
  turns of the event loop reached the page. The \<open>finally\<close> block resets
  \<open>isContinuing\<close> when the abort controller is still the one of this run, which the
  model takes for granted.
\<close>

definition hasValidContent :: "page_state \<Rightarrow> bool" where
  "hasValidContent s \<longleftrightarrow> (\<exists>r \<in> set (results s). result_content r \<noteq> [] \<and> \<not> isLoading r)"

definition continue_catch :: "page_state \<Rightarrow> page_state" where
  "continue_catch s = s\<lparr>channel := channel s @ [GENERATION_ERROR]\<rparr>"

definition handleContinueGenerate ::
  "(string \<Rightarrow> StreamChunk option) \<Rightarrow> (nat \<Rightarrow> int) \<Rightarrow> string \<Rightarrow> nat \<Rightarrow> response \<Rightarrow>
   page_event list \<Rightarrow> page_state \<Rightarrow> page_state" where
  "handleContinueGenerate decode now promptPrefix totalCount resp evs s =
     (if \<not> hasValidContent s \<or> isContinuing s \<or> isGenerating s then s
      else
        let contexts = map result_content (results s);
            run = generateMultipleResponses decode now promptPrefix (Multiple contexts)
                    (int totalCount) True None resp;
            s1 = foldl (page_step (onProgress_continue contexts))
                   (s\<lparr>isContinuing := True, renderPending := True\<rparr>) evs;
            s2 = (case snd (snd run) of
                    Inr texts \<Rightarrow> final_save (continue_completed s1)
                  | Inl e \<Rightarrow> continue_catch s1)
        in s2\<lparr>isContinuing := False, renderPending := True\<rparr>)"

text \<open>The last report for index \<open>i\<close> in a list of reports, if there is one.\<close>

definition last_report :: "nat \<Rightarrow> progress list \<Rightarrow> progress option" where
  "last_report i ps =
     (let qs = filter (\<lambda>p. p_index p = i) ps in if qs = [] then None else Some (last qs))"

text \<open>
  Scenario C of the specification: the page holds two finished results ``foo'' and
  ``bar'', still in the pending map from the run that made them; the continuation run
  receives the stream of Scenario A, and the event loop gets a turn while the timeout set
  by the second report is due.
\<close>

definition scenario_C_page :: page_state where
  "scenario_C_page =
     fresh_page
       \<lparr>results := [\<lparr>result_id = ''result-0'', result_content = ''foo'', isLoading = False\<rparr>,
                   \<lparr>result_id = ''result-1'', result_content = ''bar'', isLoading = False\<rparr>],
        updateBuffer := [(0, ''foo''), (1, ''bar'')],
        completedIndexes := {0, 1}\<rparr>"

definition scenario_C_events :: "page_event list" where
  "scenario_C_events =
     [Report 1000 \<lparr>p_index = 0, p_content = ''ab'', p_isComplete = False, p_tokenRate = 2,
                   p_totalTokens = 2\<rparr>,
      Report 2000 \<lparr>p_index = 1, p_content = ''cd'', p_isComplete = False, p_tokenRate = 2,
                   p_totalTokens = 4\<rparr>,
      Elapse 2400,
      Report 3000 \<lparr>p_index = 0, p_content = ''abc'', p_isComplete = False, p_tokenRate = 2,
                   p_totalTokens = 5\<rparr>,
      Report 4000 \<lparr>p_index = 0, p_content = ''abc'', p_isComplete = True, p_tokenRate = 1,
                   p_totalTokens = 5\<rparr>,
      Report 4000 \<lparr>p_index = 1, p_content = ''cd'', p_isComplete = True, p_tokenRate = 1,
                   p_totalTokens = 5\<rparr>]"

section \<open>Properties of the line splitting\<close>

lemma split_nl_not_Nil: "split_nl s \<noteq> []"
  by (induction s) (auto split: list.splits)

lemma split_nl_Cons_newline: "split_nl (newline # cs) = [] # split_nl cs"
  by simp

lemma split_nl_Cons_other:
  "c \<noteq> newline \<Longrightarrow> split_nl (c # cs) = (c # hd (split_nl cs)) # tl (split_nl cs)"
  using split_nl_not_Nil [of cs] by (cases "split_nl cs") auto

lemma split_nl_append:
  "split_nl (a @ b) = butlast (split_nl a) @ split_nl (last (split_nl a) @ b)"
proof (induction a)
  case Nil
  show ?case by simp
next
  case (Cons c cs)
  obtain l ls where S: "split_nl cs = l # ls"
    using split_nl_not_Nil [of cs] by (cases "split_nl cs") auto
  show ?case
  proof (cases "c = newline")
    case True
    with Cons show ?thesis by (simp add: split_nl_not_Nil)
  next
    case False
    have whole: "split_nl (c # cs) = (c # l) # ls"
      using False S by (simp add: split_nl_Cons_other)
    have lhs: "split_nl ((c # cs) @ b)
               = (c # hd (split_nl (cs @ b))) # tl (split_nl (cs @ b))"
      using False by (simp add: split_nl_Cons_other del: split_nl.simps)
    show ?thesis
    proof (cases "ls = []")
      case True
      have "split_nl (cs @ b) = split_nl (l @ b)"
        using Cons S True by simp
      moreover have "split_nl ((c # l) @ b)
                     = (c # hd (split_nl (l @ b))) # tl (split_nl (l @ b))"
        using False by (simp add: split_nl_Cons_other del: split_nl.simps)
      ultimately show ?thesis
        unfolding lhs whole using True by simp
    next
      case nonempty: False
      have "split_nl (cs @ b) = (l # butlast ls) @ split_nl (last ls @ b)"
        using Cons S nonempty by simp
      then show ?thesis
        unfolding lhs whole using nonempty by simp
    qed
  qed
qed

lemma feed_eq:
  "feed p c = (butlast (split_nl (p @ c)), last (split_nl (p @ c)))"
  by (simp add: feed_def pop_partial_def split_nl_not_Nil)

lemma split_nl_no_newline: "newline \<notin> set p \<Longrightarrow> split_nl p = [p]"
  by (induction p) auto

lemma last_split_nl_no_newline: "newline \<notin> set (last (split_nl s))"
  by (induction s) (auto simp: split_nl_not_Nil split: list.splits)

lemma sse_lines_eq:
  "newline \<notin> set p \<Longrightarrow>
   sse_lines p chunks =
     (butlast (split_nl (p @ concat chunks)), last (split_nl (p @ concat chunks)))"
proof (induction chunks arbitrary: p)
  case Nil
  then show ?case by (simp add: split_nl_no_newline)
next
  case (Cons c cs)
  let ?q = "last (split_nl (p @ c))"
  have q: "newline \<notin> set ?q" by (rule last_split_nl_no_newline)
  have "split_nl (p @ concat (c # cs)) = split_nl ((p @ c) @ concat cs)" by simp
  also have "\<dots> = butlast (split_nl (p @ c)) @ split_nl (?q @ concat cs)"
    by (rule split_nl_append)
  finally have sp: "split_nl (p @ concat (c # cs))
                    = butlast (split_nl (p @ c)) @ split_nl (?q @ concat cs)" .
  have ne: "split_nl (?q @ concat cs) \<noteq> []" by (rule split_nl_not_Nil)
  show ?case
    unfolding sp using Cons.IH [OF q] ne
    by (simp add: feed_eq butlast_append)
qed

section \<open>Chunk boundaries\<close>

text \<open>
  C2. However a text is cut into chunks, the carry-over of the read loop hands the same
  complete lines to the line loop, in the same order, as reading the whole text as one
  chunk; these are the pieces of the text between newlines, all but the last, and the
  partial left at the end is the same too.
\<close>

theorem chunk_boundaries_preserve_lines:
  "sse_lines [] chunks = sse_lines [] [concat chunks] \<and>
   fst (sse_lines [] chunks) = butlast (split_nl (concat chunks)) \<and>
   snd (sse_lines [] chunks) = last (split_nl (concat chunks))"
  by (simp add: sse_lines_eq feed_eq)

section \<open>The demultiplexer: buffers\<close>

lemma process_chunk_flat:
  "process_chunk now count cb s json = foldl (apply_choice now count cb) s (choices_of json)"
  by (auto simp: process_chunk_def choices_of_def split: option.splits)

lemma foldl_process_chunk_flat:
  "foldl (process_chunk now count cb) s evs
   = foldl (apply_choice now count cb) s (concat (map choices_of evs))"
  by (induction evs arbitrary: s) (simp_all add: process_chunk_flat)

lemma length_apply_choice [simp]:
  "length (contentBuffers (apply_choice now count cb s c)) = length (contentBuffers s)"
  by (simp add: apply_choice_def Let_def)

lemma length_foldl_apply_choice [simp]:
  "length (contentBuffers (foldl (apply_choice now count cb) s cs)) = length (contentBuffers s)"
  by (induction cs arbitrary: s) simp_all

lemma apply_choice_out_of_range:
  "\<not> (0 \<le> choice_index c \<and> choice_index c < count) \<Longrightarrow> apply_choice now count cb s c = s"
  by (auto simp: apply_choice_def Let_def)

lemma buffers_apply_choice:
  assumes "length (contentBuffers s) = nat count" "i < nat count"
  shows "contentBuffers (apply_choice now count cb s c) ! i
         = contentBuffers s ! i @ (if choice_index c = int i then delta_text c else [])"
  using assms by (auto simp: apply_choice_def Let_def nth_list_update)

lemma buffers_foldl_apply_choice:
  assumes "length (contentBuffers s) = nat count" "i < nat count"
  shows "contentBuffers (foldl (apply_choice now count cb) s cs) ! i
         = contentBuffers s ! i @ deltas_for i cs"
  using assms
proof (induction cs arbitrary: s)
  case Nil
  then show ?case by (simp add: deltas_for_def)
next
  case (Cons c cs)
  have "length (contentBuffers (apply_choice now count cb s c)) = nat count"
    using Cons.prems by simp
  from Cons.IH [OF this Cons.prems(2)] buffers_apply_choice [OF Cons.prems, of now cb c]
  show ?case by (simp add: deltas_for_def)
qed

text \<open>
  C1. For every stream count and every sequence of decoded events, after the
  demultiplexer has processed them all there are \<open>count\<close> buffers, and the buffer of each
  index \<open>i\<close> in range is the concatenation, in arrival order, of the delta texts seen for
  \<open>i\<close>; a choice whose index is out of range leaves every buffer as it was.
\<close>

theorem demux_buffers_are_concatenations:
  "length (contentBuffers (foldl (process_chunk now count onProgress) (init_state count) evs))
     = nat count \<and>
   (\<forall>i < nat count.
      contentBuffers (foldl (process_chunk now count onProgress) (init_state count) evs) ! i
      = deltas_for i (concat (map choices_of evs))) \<and>
   (\<forall>s c. \<not> (0 \<le> choice_index c \<and> choice_index c < count) \<longrightarrow>
      contentBuffers (apply_choice now count onProgress s c) = contentBuffers s)"
proof -
  have len: "length (contentBuffers (init_state count)) = nat count"
    by (simp add: init_state_def)
  have "\<And>i. i < nat count \<Longrightarrow> contentBuffers (init_state count) ! i = []"
    by (simp add: init_state_def)
  then show ?thesis
    using len
    by (simp add: foldl_process_chunk_flat buffers_foldl_apply_choice
          apply_choice_out_of_range)
qed

theorem demux_buffers_are_concatenations_witness:
  "(0::nat) < nat 3 \<and>
   contentBuffers (foldl (process_chunk (\<lambda>k. 0) 3 True) (init_state 3)
      [delta_event 0 ''ab'', delta_event 1 ''cd'', delta_event 7 ''zz'', delta_event 0 ''c'']) ! 0
     = ''abc'' \<and>
   contentBuffers (apply_choice (\<lambda>k. 0) 3 True (init_state 3)
      \<lparr>choice_index = 7, choice_delta = Some \<lparr>delta_content = Some ''zz''\<rparr>\<rparr>)
     = contentBuffers (init_state 3)"
  using demux_buffers_are_concatenations [where now = "\<lambda>k. 0" and count = 3
      and onProgress = True and evs =
      "[delta_event 0 ''ab'', delta_event 1 ''cd'', delta_event 7 ''zz'', delta_event 0 ''c'']"]
  by (simp add: deltas_for_def choices_of_def delta_event_def delta_text_def)

section \<open>The demultiplexer: lines, the read loop and the final loop\<close>

lemma apply_choice_not_applied: "\<not> applied count c \<Longrightarrow> apply_choice now count cb s c = s"
  by (auto simp: apply_choice_def applied_def Let_def)

lemma apply_choice_applied:
  "applied count c \<Longrightarrow>
   apply_choice now count True s c =
     s\<lparr>contentBuffers := (contentBuffers s)[nat (choice_index c) :=
                             contentBuffers s ! nat (choice_index c) @ delta_text c],
       totalTokenCount := totalTokenCount s + length (delta_text c),
       clock_reads := Suc (clock_reads s),
       calls := calls s @
         [\<lparr>p_index = nat (choice_index c),
           p_content = (contentBuffers s)[nat (choice_index c) :=
                          contentBuffers s ! nat (choice_index c) @ delta_text c]
                       ! nat (choice_index c),
           p_isComplete = False,
           p_tokenRate = tokenRate_of (totalTokenCount s + length (delta_text c))
                           (now (clock_reads s) - now 0),
           p_totalTokens = totalTokenCount s + length (delta_text c)\<rparr>]\<rparr>"
  by (simp add: apply_choice_def applied_def Let_def)

lemma process_line_flat:
  "process_line decode now count cb s line
   = foldl (apply_choice now count cb) s (line_choices decode line)"
  by (simp add: process_line_def line_choices_def process_chunk_flat Let_def split: option.splits)

lemma foldl_process_line_flat:
  "foldl (process_line decode now count cb) s lines
   = foldl (apply_choice now count cb) s (concat (map (line_choices decode) lines))"
  by (induction lines arbitrary: s) (simp_all add: process_line_flat)

lemma read_loop_values:
  "read_loop decode now count cb p s (map Value chunks)
   = (foldl (process_line decode now count cb) s (fst (sse_lines p chunks)), None)"
  by (induction chunks arbitrary: p s) (simp_all add: split_beta Let_def)

lemma executeGeneration_normal:
  "executeGeneration decode now count cb (Body (map Value chunks))
   = (case finalize now count cb
             (foldl (apply_choice now count cb) (init_state count) (stream_choices decode chunks))
      of (s', texts) \<Rightarrow> (s', Inr texts))"
  by (simp add: executeGeneration_def read_loop_values foldl_process_line_flat stream_choices_def)

lemma final_step_cb:
  "final_step True rate (s, res) i
   = (if contentBuffers s ! i \<noteq> []
      then (s\<lparr>calls := calls s @ [final_report (contentBuffers s) (totalTokenCount s) rate i]\<rparr>,
            res @ [contentBuffers s ! i])
      else (s, res @ [contentBuffers s ! i]))"
  by (simp add: final_step_def final_report_def Let_def)

lemma foldl_final_step:
  "foldl (final_step True rate) (s, res) ixs
   = (s\<lparr>calls := calls s @ map (final_report (contentBuffers s) (totalTokenCount s) rate)
                              (filter (\<lambda>i. contentBuffers s ! i \<noteq> []) ixs)\<rparr>,
      res @ map (\<lambda>i. contentBuffers s ! i) ixs)"
proof (induction ixs arbitrary: s res)
  case Nil
  show ?case by simp
next
  case (Cons i ixs)
  show ?case
    by (simp add: Cons.IH final_step_cb)
qed

lemma final_step_no_cb:
  "final_step False rate (s, res) i = (s, res @ [contentBuffers s ! i])"
  by (simp add: final_step_def Let_def)

lemma foldl_final_step_no_cb:
  "foldl (final_step False rate) (s, res) ixs = (s, res @ map (\<lambda>i. contentBuffers s ! i) ixs)"
  by (induction ixs arbitrary: s res) (simp_all add: final_step_no_cb)

lemma finalize_eq:
  "finalize now count True s =
     (s\<lparr>clock_reads := Suc (clock_reads s),
        calls := calls s @ final_reports count (contentBuffers s) (totalTokenCount s)
                   (tokenRate_of (totalTokenCount s) (now (clock_reads s) - now 0))\<rparr>,
      map (\<lambda>i. contentBuffers s ! i) [0..<nat count])"
  by (simp add: finalize_def Let_def foldl_final_step final_reports_def)

lemma filter_index_final_reports:
  "filter (\<lambda>p. p_isComplete p \<and> p_index p = i) (map (final_report bufs tokens rate) (filter P [0..<n]))
   = (if i < n \<and> P i then [final_report bufs tokens rate i] else [])"
  by (induction n) (auto simp: final_report_def less_Suc_eq)

lemma total_foldl_apply_choice:
  "totalTokenCount (foldl (apply_choice now count cb) s cs)
   = totalTokenCount s + tokens_applied count cs"
proof (induction cs arbitrary: s)
  case Nil
  show ?case by (simp add: tokens_applied_def)
next
  case (Cons c cs)
  show ?case
    by (cases "applied count c")
       (simp_all add: Cons.IH tokens_applied_def apply_choice_not_applied,
        simp add: apply_choice_def applied_def Let_def)
qed

lemma clock_reads_foldl_apply_choice:
  "clock_reads (foldl (apply_choice now count cb) s cs)
   = clock_reads s + length (filter (applied count) cs)"
proof (induction cs arbitrary: s)
  case Nil
  show ?case by simp
next
  case (Cons c cs)
  show ?case
    by (cases "applied count c")
       (simp_all add: Cons.IH apply_choice_not_applied,
        simp add: apply_choice_def applied_def Let_def)
qed

lemma calls_incomplete_foldl_apply_choice:
  "\<forall>p \<in> set (calls s). \<not> p_isComplete p \<Longrightarrow>
   \<forall>p \<in> set (calls (foldl (apply_choice now count cb) s cs)). \<not> p_isComplete p"
proof (induction cs arbitrary: s)
  case Nil
  then show ?case by simp
next
  case (Cons c cs)
  have "\<forall>p \<in> set (calls (apply_choice now count cb s c)). \<not> p_isComplete p"
    using Cons.prems by (auto simp: apply_choice_def Let_def)
  from Cons.IH [OF this] show ?case by simp
qed

lemma sum_buffers_apply_choice:
  "length (contentBuffers s) = nat count \<Longrightarrow>
   sum_list (map length (contentBuffers (apply_choice now count cb s c)))
   = sum_list (map length (contentBuffers s)) + (if applied count c then length (delta_text c) else 0)"
  by (auto simp: apply_choice_def applied_def Let_def map_update sum_list_update)

lemma sum_buffers_foldl_apply_choice:
  "length (contentBuffers s) = nat count \<Longrightarrow>
   sum_list (map length (contentBuffers (foldl (apply_choice now count cb) s cs)))
   = sum_list (map length (contentBuffers s)) + tokens_applied count cs"
proof (induction cs arbitrary: s)
  case Nil
  show ?case by (simp add: tokens_applied_def)
next
  case (Cons c cs)
  have "length (contentBuffers (apply_choice now count cb s c)) = nat count"
    using Cons.prems by simp
  from Cons.IH [OF this] sum_buffers_apply_choice [OF Cons.prems, of now cb c]
  show ?case by (simp add: tokens_applied_def)
qed

lemma filter_complete_running:
  "filter (\<lambda>p. p_isComplete p \<and> p_index p = i)
     (calls (foldl (apply_choice now count cb) (init_state count) cs)) = []"
proof -
  have "\<forall>p \<in> set (calls (init_state count)). \<not> p_isComplete p"
    by (simp add: init_state_def)
  from calls_incomplete_foldl_apply_choice [OF this]
  show ?thesis by (simp add: filter_empty_conv)
qed

lemma executeGeneration_normal_cb:
  fixes decode now count chunks
  defines "s \<equiv> foldl (apply_choice now count True) (init_state count) (stream_choices decode chunks)"
  shows "executeGeneration decode now count True (Body (map Value chunks)) =
     (s\<lparr>clock_reads := Suc (clock_reads s),
        calls := calls s @ final_reports count (contentBuffers s) (totalTokenCount s)
                   (tokenRate_of (totalTokenCount s) (now (clock_reads s) - now 0))\<rparr>,
      Inr (contentBuffers s))"
proof -
  have "length (contentBuffers s) = nat count"
    by (simp add: s_def init_state_def)
  then have "map (\<lambda>i. contentBuffers s ! i) [0..<nat count] = contentBuffers s"
    by (metis map_nth)
  then show ?thesis
    by (simp add: executeGeneration_normal finalize_eq s_def [symmetric])
qed

text \<open>
  C4. A complete \<open>data: \<close> line whose payload is \<open>[DONE]\<close>, or whose payload does not
  decode, changes nothing: no delta, no callback, no error. The lines after it are processed
  as if it had not been there, the read loop over a stream whose reads all succeed ends
  without an error having processed every complete line, and the run returns its results.
\<close>

theorem done_and_malformed_lines_are_skipped:
  "prefix ''data: '' line \<Longrightarrow>
   trim (drop 6 line) = ''[DONE]'' \<or> decode (trim (drop 6 line)) = None \<Longrightarrow>
   process_line decode now count onProgress s line = s \<and>
   foldl (process_line decode now count onProgress) s (before @ line # after)
     = foldl (process_line decode now count onProgress) s (before @ after) \<and>
   (\<forall>chunks.
      read_loop decode now count onProgress [] (init_state count) (map Value chunks)
        = (foldl (process_line decode now count onProgress) (init_state count)
             (fst (sse_lines [] chunks)), None) \<and>
      (\<exists>st texts. executeGeneration decode now count onProgress (Body (map Value chunks))
                      = (st, Inr texts)))"
proof -
  assume p: "prefix ''data: '' line"
    and bad: "trim (drop 6 line) = ''[DONE]'' \<or> decode (trim (drop 6 line)) = None"
  have skip: "\<And>st. process_line decode now count onProgress st line = st"
    using p bad by (auto simp: process_line_def Let_def)
  have "\<And>chunks. \<exists>st texts.
          executeGeneration decode now count onProgress (Body (map Value chunks)) = (st, Inr texts)"
    by (simp add: executeGeneration_normal split_beta)
  with skip show ?thesis
    by (simp add: read_loop_values)
qed

theorem done_and_malformed_lines_are_skipped_witness:
  "prefix ''data: '' ''data: {oops'' \<and>
   scenario_decode (trim (drop 6 ''data: {oops'')) = None \<and>
   contentBuffers (foldl (process_line scenario_decode (\<lambda>k. 0) 3 True) (init_state 3)
      ([''data: A''] @ ''data: {oops'' # [''data: C'']))
     = [''abc'', [], []] \<and>
   process_line scenario_decode (\<lambda>k. 0) 3 True (init_state 3) ''data: {oops'' = init_state 3"
proof -
  have p: "prefix ''data: '' ''data: {oops''" by simp
  have bad: "trim (drop 6 ''data: {oops'') = ''[DONE]''
             \<or> scenario_decode (trim (drop 6 ''data: {oops'')) = None"
    by (simp add: scenario_decode_def trim_def is_ws_def)
  have rest: "contentBuffers (foldl (process_line scenario_decode (\<lambda>k. 0) 3 True) (init_state 3)
      ([''data: A''] @ [''data: C''])) = [''abc'', [], []]"
    by code_simp
  note inst = done_and_malformed_lines_are_skipped [where line = "''data: {oops''"
      and decode = scenario_decode and now = "\<lambda>k. 0" and count = 3 and onProgress = True
      and s = "init_state 3" and before = "[''data: A'']" and after = "[''data: C'']", OF p bad]
  from p bad inst rest show ?thesis
    by (simp add: scenario_decode_def trim_def is_ws_def)
qed

text \<open>
  C5. When the stream ends normally and a callback was passed, the run returns the
  buffers, and for each index in range: if its buffer is not empty, exactly one callback
  with \<open>isComplete = true\<close> is made for it, carrying the whole buffer, the final rate
  and the final total; if its buffer is empty, none is made. The witness is Scenario A.
\<close>

theorem final_callback_per_nonempty_buffer:
  "onProgress \<Longrightarrow>
   (case executeGeneration decode now count onProgress (Body (map Value chunks)) of
      (st, out) \<Rightarrow>
        out = Inr (contentBuffers st) \<and>
        (\<forall>i < nat count.
           contentBuffers st ! i = deltas_for i (stream_choices decode chunks) \<and>
           filter (\<lambda>p. p_isComplete p \<and> p_index p = i) (calls st) =
             (if contentBuffers st ! i \<noteq> []
              then [\<lparr>p_index = i, p_content = contentBuffers st ! i, p_isComplete = True,
                     p_tokenRate = tokenRate_of (totalTokenCount st)
                                     (now (clock_reads st - 1) - now 0),
                     p_totalTokens = totalTokenCount st\<rparr>]
              else [])))"
proof -
  assume "onProgress"
  then have cb: "onProgress = True" by simp
  define s where "s = foldl (apply_choice now count True) (init_state count) (stream_choices decode chunks)"
  have len: "length (contentBuffers (init_state count)) = nat count"
    and empty: "\<And>i. i < nat count \<Longrightarrow> contentBuffers (init_state count) ! i = []"
    by (simp_all add: init_state_def)
  have bufs: "\<And>i. i < nat count \<Longrightarrow> contentBuffers s ! i = deltas_for i (stream_choices decode chunks)"
    unfolding s_def using buffers_foldl_apply_choice [OF len] empty by simp
  have running: "\<And>i. filter (\<lambda>p. p_isComplete p \<and> p_index p = i) (calls s) = []"
    unfolding s_def by (rule filter_complete_running)
  show ?thesis
    unfolding cb executeGeneration_normal_cb s_def [symmetric]
    by (simp add: bufs running final_reports_def filter_index_final_reports final_report_def)
qed

theorem final_callback_per_nonempty_buffer_witness:
  "(case executeGeneration scenario_decode (\<lambda>k. 1000 * int k) 3 True
           (Body (map Value scenario_chunks)) of
      (st, out) \<Rightarrow>
        out = Inr [''abc'', ''cd'', []] \<and> (2::nat) < nat 3 \<and>
        contentBuffers st ! 2 = [] \<and>
        filter (\<lambda>p. p_isComplete p \<and> p_index p = 2) (calls st) = [] \<and>
        filter (\<lambda>p. p_isComplete p \<and> p_index p = 0) (calls st) =
          [\<lparr>p_index = 0, p_content = ''abc'', p_isComplete = True, p_tokenRate = 1,
            p_totalTokens = 5\<rparr>])"
proof -
  have run: "executeGeneration scenario_decode (\<lambda>k. 1000 * int k) 3 True
               (Body (map Value scenario_chunks)) =
    (\<lparr>contentBuffers = [''abc'', ''cd'', []], totalTokenCount = 5, clock_reads = 5,
      calls =
       [\<lparr>p_index = 0, p_content = ''ab'', p_isComplete = False, p_tokenRate = 2, p_totalTokens = 2\<rparr>,
        \<lparr>p_index = 1, p_content = ''cd'', p_isComplete = False, p_tokenRate = 2, p_totalTokens = 4\<rparr>,
        \<lparr>p_index = 0, p_content = ''abc'', p_isComplete = False, p_tokenRate = 2, p_totalTokens = 5\<rparr>,
        \<lparr>p_index = 0, p_content = ''abc'', p_isComplete = True, p_tokenRate = 1, p_totalTokens = 5\<rparr>,
        \<lparr>p_index = 1, p_content = ''cd'', p_isComplete = True, p_tokenRate = 1, p_totalTokens = 5\<rparr>]\<rparr>,
     Inr [''abc'', ''cd'', []])"
    by code_simp
  have rate: "tokenRate_of 5 4000 = 1"
    by code_simp
  from final_callback_per_nonempty_buffer [where onProgress = True and decode = scenario_decode
      and now = "\<lambda>k. 1000 * int k" and count = 3 and chunks = scenario_chunks, OF TrueI]
  show ?thesis
    unfolding run by (simp add: rate)
qed

section \<open>Token count and token rate\<close>

lemma round_even_near: "\<bar>of_int (round_even y) - y\<bar> \<le> 1 / 2"
proof -
  have "of_int \<lfloor>y\<rfloor> \<le> y" "y < of_int \<lfloor>y\<rfloor> + 1" by linarith+
  then show ?thesis
    by (auto simp: round_even_def Let_def)
qed

lemma round_even_nonneg: "0 \<le> y \<Longrightarrow> 0 \<le> round_even y"
  by (auto simp: round_even_def Let_def)

lemma ilog2_lower:
  assumes "0 < x"
  shows "2 powi (ilog2 x) \<le> x"
proof -
  obtain p q where pq: "quotient_of x = (p, q)" by (cases "quotient_of x")
  have q: "0 < q" using pq by (rule quotient_of_denom_pos)
  have x: "x = of_int p / of_int q" using pq by (rule quotient_of_div)
  have p: "0 < p" using assms q x by (simp add: zero_less_divide_iff)
  define c where "c = bitlen p - bitlen q"
  show ?thesis
  proof (cases "2 powi c \<le> x")
    case True
    then show ?thesis by (simp add: ilog2_def pq c_def)
  next
    case False
    have bp: "1 \<le> bitlen p" and bq: "1 \<le> bitlen q"
      using p q bitlen_eq_zero_iff [of p] bitlen_eq_zero_iff [of q] bitlen_nonneg [of p] bitlen_nonneg [of q]
      by linarith+
    have "(2::int) ^ nat (bitlen p - 1) \<le> p" using bitlen_bounds [OF p] by simp
    then have "(of_int ((2::int) ^ nat (bitlen p - 1)) :: rat) \<le> of_int p"
      by (simp only: of_int_le_iff)
    then have lo: "(2::rat) powi (bitlen p - 1) \<le> of_int p"
      using bp by (simp add: power_int_def)
    have "q < (2::int) ^ nat (bitlen q)" using bitlen_bounds [OF q] by simp
    then have "(of_int q :: rat) < of_int ((2::int) ^ nat (bitlen q))"
      by (simp only: of_int_less_iff)
    then have hi: "(of_int q :: rat) < 2 powi (bitlen q)"
      using bq by (simp add: power_int_def)
    have "(2::rat) powi (c - 1) = 2 powi (bitlen p - 1) / 2 powi (bitlen q)"
      by (simp add: c_def power_int_diff)
    also have "\<dots> \<le> of_int p / 2 powi (bitlen q)"
      using lo by (simp add: divide_right_mono)
    also have "\<dots> \<le> of_int p / of_int q"
      using hi p q by (simp add: frac_le)
    finally have "(2::rat) powi (c - 1) \<le> x" by (simp add: x)
    with False show ?thesis by (simp add: ilog2_def pq c_def)
  qed
qed

lemma ilog2_upper:
  assumes "0 < x"
  shows "x < 2 powi (ilog2 x + 1)"
proof -
  obtain p q where pq: "quotient_of x = (p, q)" by (cases "quotient_of x")
  have q: "0 < q" using pq by (rule quotient_of_denom_pos)
  have x: "x = of_int p / of_int q" using pq by (rule quotient_of_div)
  have p: "0 < p" using assms q x by (simp add: zero_less_divide_iff)
  define c where "c = bitlen p - bitlen q"
  show ?thesis
  proof (cases "2 powi c \<le> x")
    case False
    then show ?thesis by (simp add: ilog2_def pq c_def)
  next
    case True
    have bp: "1 \<le> bitlen p" and bq: "1 \<le> bitlen q"
      using p q bitlen_eq_zero_iff [of p] bitlen_eq_zero_iff [of q] bitlen_nonneg [of p] bitlen_nonneg [of q]
      by linarith+
    have "p < (2::int) ^ nat (bitlen p)" using bitlen_bounds [OF p] by simp
    then have "(of_int p :: rat) < of_int ((2::int) ^ nat (bitlen p))"
      by (simp only: of_int_less_iff)
    then have hi: "(of_int p :: rat) < 2 powi (bitlen p)"
      using bp by (simp add: power_int_def)
    have "(2::int) ^ nat (bitlen q - 1) \<le> q" using bitlen_bounds [OF q] by simp
    then have "(of_int ((2::int) ^ nat (bitlen q - 1)) :: rat) \<le> of_int q"
      by (simp only: of_int_le_iff)
    then have lo: "(2::rat) powi (bitlen q - 1) \<le> of_int q"
      using bq by (simp add: power_int_def)
    have pos: "(0::rat) < 2 powi (bitlen q - 1)" by simp
    have "x = of_int p / of_int q" by (rule x)
    also have "\<dots> < 2 powi (bitlen p) / of_int q"
      using hi q by (simp add: divide_strict_right_mono)
    also have "\<dots> \<le> 2 powi (bitlen p) / 2 powi (bitlen q - 1)"
      using lo pos by (simp add: frac_le)
    also have "\<dots> = 2 powi (bitlen p - (bitlen q - 1))"
      by (rule power_int_diff [symmetric]) simp
    also have "bitlen p - (bitlen q - 1) = c + 1"
      by (simp add: c_def)
    finally show ?thesis using True by (simp add: ilog2_def pq c_def)
  qed
qed

lemma to_double_error:
  assumes "0 < x"
  shows "\<bar>to_double x - x\<bar> \<le> x / 2 ^ 53"
proof -
  define u :: rat where "u = 2 powi (ilog2 x - 52)"
  define m where "m = round_even (x / u)"
  have u: "0 < u" by (simp add: u_def)
  have d: "to_double x = of_int m * u"
    using assms by (simp add: to_double_def Let_def u_def m_def)
  have "\<bar>of_int m - x / u\<bar> \<le> 1 / 2" unfolding m_def by (rule round_even_near)
  then have "\<bar>of_int m - x / u\<bar> * u \<le> 1 / 2 * u"
    using u by (simp add: mult_right_mono)
  moreover have "\<bar>of_int m - x / u\<bar> * u = \<bar>(of_int m - x / u) * u\<bar>"
    using u by (simp add: abs_mult_pos)
  moreover have "(of_int m - x / u) * u = of_int m * u - x"
    using u by (simp add: left_diff_distrib)
  ultimately have near: "\<bar>of_int m * u - x\<bar> \<le> u / 2" by simp
  have "u / 2 = 2 powi (ilog2 x) / 2 ^ 53"
    by (simp add: u_def power_int_diff)
  also have "\<dots> \<le> x / 2 ^ 53"
    using ilog2_lower [OF assms] by (simp add: divide_right_mono)
  finally show ?thesis using near d by simp
qed

lemma to_double_mantissa:
  assumes "0 < x"
  shows "to_double x = of_int (round_even (x / 2 powi (ilog2 x - 52))) * 2 powi (ilog2 x - 52)"
    and "2 ^ 52 \<le> round_even (x / 2 powi (ilog2 x - 52))"
    and "round_even (x / 2 powi (ilog2 x - 52)) \<le> 2 ^ 53"
proof -
  define u :: rat where "u = 2 powi (ilog2 x - 52)"
  define m where "m = round_even (x / u)"
  have u: "0 < u" by (simp add: u_def)
  show "to_double x = of_int (round_even (x / 2 powi (ilog2 x - 52))) * 2 powi (ilog2 x - 52)"
    using assms by (simp add: to_double_def Let_def)
  have near: "\<bar>of_int m - x / u\<bar> \<le> 1 / 2" unfolding m_def by (rule round_even_near)
  have "2 powi (ilog2 x) / u = 2 powi (ilog2 x - (ilog2 x - 52))"
    unfolding u_def by (rule power_int_diff [symmetric]) simp
  then have lo_eq: "2 powi (ilog2 x) / u = 2 ^ 52" by simp
  have "2 powi (ilog2 x + 1) / u = 2 powi (ilog2 x + 1 - (ilog2 x - 52))"
    unfolding u_def by (rule power_int_diff [symmetric]) simp
  then have hi_eq: "2 powi (ilog2 x + 1) / u = 2 ^ 53" by simp
  have "2 powi (ilog2 x) / u \<le> x / u"
    using ilog2_lower [OF assms] u by (intro divide_right_mono) simp_all
  then have lo: "2 ^ 52 \<le> x / u" by (simp add: lo_eq)
  have "x / u < 2 powi (ilog2 x + 1) / u"
    using ilog2_upper [OF assms] u by (intro divide_strict_right_mono) simp_all
  then have hi: "x / u < 2 ^ 53" by (simp add: hi_eq)
  have "(2 ^ 52 :: rat) - 1 / 2 \<le> of_int m" using near lo by linarith
  then have "(of_int (2 ^ 52 - 1) :: rat) < of_int m" by simp
  then have "2 ^ 52 - 1 < m" by (simp only: of_int_less_iff)
  then show "2 ^ 52 \<le> round_even (x / 2 powi (ilog2 x - 52))"
    by (simp add: m_def u_def)
  have "(of_int m :: rat) < 2 ^ 53 + 1 / 2" using near hi by linarith
  then have "(of_int m :: rat) < of_int (2 ^ 53 + 1)" by simp
  then have "m < 2 ^ 53 + 1" by (simp only: of_int_less_iff)
  then show "round_even (x / 2 powi (ilog2 x - 52)) \<le> 2 ^ 53"
    by (simp add: m_def u_def)
qed

lemma to_double_pos: "0 < x \<Longrightarrow> 0 < to_double x"
proof -
  assume x: "0 < x"
  have "x / 2 ^ 53 < x" using x by simp
  with to_double_error [OF x] show ?thesis by linarith
qed

lemma to_double_nonneg: "0 \<le> x \<Longrightarrow> 0 \<le> to_double x"
  using to_double_pos [of x] by (cases "x = 0") (simp_all add: to_double_def)

lemma to_double_nonpos: "x \<le> 0 \<Longrightarrow> to_double x \<le> 0"
proof (cases "x = 0")
  case True
  then show ?thesis by (simp add: to_double_def)
next
  case False
  assume "x \<le> 0"
  with False have neg: "x < 0" by simp
  have "0 \<le> round_even (\<bar>x\<bar> / 2 powi (ilog2 \<bar>x\<bar> - 52))"
    by (rule round_even_nonneg) simp
  then have "0 \<le> (of_int (round_even (\<bar>x\<bar> / 2 powi (ilog2 \<bar>x\<bar> - 52))) :: rat) * 2 powi (ilog2 \<bar>x\<bar> - 52)"
    by simp
  then show ?thesis
    using neg False by (simp add: to_double_def Let_def mult.assoc)
qed


lemma elapsedSeconds_pos_iff: "0 < double_div (of_int e) 1000 \<longleftrightarrow> 0 < e"
proof
  assume "0 < e"
  then have "(0::rat) < of_int e / 1000" by simp
  then show "0 < double_div (of_int e) 1000"
    unfolding double_div_def by (rule to_double_pos)
next
  assume pos: "0 < double_div (of_int e) 1000"
  show "0 < e"
  proof (rule ccontr)
    assume "\<not> 0 < e"
    then have "(of_int e / 1000 :: rat) \<le> 0" by simp
    then have "double_div (of_int e) 1000 \<le> 0"
      unfolding double_div_def by (rule to_double_nonpos)
    with pos show False by simp
  qed
qed

lemma tokenRate_of_nonpos_elapsed: "e \<le> 0 \<Longrightarrow> tokenRate_of t e = 0"
  using elapsedSeconds_pos_iff [of e] by (simp add: tokenRate_of_def Let_def)

lemma tokenRate_of_pos_elapsed:
  "0 < e \<Longrightarrow>
   tokenRate_of t e = js_round (double_div (of_nat t) (double_div (of_int e) 1000))"
  using elapsedSeconds_pos_iff [of e] by (simp add: tokenRate_of_def Let_def)

lemma tokenRate_of_nonneg: "0 \<le> tokenRate_of t e"
proof (cases "0 < e")
  case False
  then show ?thesis by (simp add: tokenRate_of_nonpos_elapsed)
next
  case True
  then have "0 < double_div (of_int e) 1000" by (simp add: elapsedSeconds_pos_iff)
  then have "(0::rat) \<le> of_nat t / double_div (of_int e) 1000" by simp
  then have "0 \<le> double_div (of_nat t) (double_div (of_int e) 1000)"
    unfolding double_div_def [of "of_nat t"] by (rule to_double_nonneg)
  then show ?thesis
    using True by (simp add: tokenRate_of_pos_elapsed js_round_def)
qed

lemma double_quotient_error:
  fixes t :: nat and e :: int
  assumes e: "0 < e" and t: "0 < t"
  defines "q \<equiv> (of_nat t / (of_int e / 1000) :: rat)"
  shows "\<bar>double_div (of_nat t) (double_div (of_int e) 1000) - q\<bar> \<le> q / 2 ^ 51"
proof -
  define a :: rat where "a = of_int e / 1000"
  define es where "es = double_div (of_int e) 1000"
  define y :: rat where "y = of_nat t / es"
  define x where "x = double_div (of_nat t) es"
  define eps :: rat where "eps = 1 / 2 ^ 53"
  have a: "0 < a" using e by (simp add: a_def)
  have es: "0 < es" using e by (simp add: es_def elapsedSeconds_pos_iff)
  have y: "0 < y" using t es by (simp add: y_def)
  have q: "0 < q" "q = of_nat t / a" using t a by (simp_all add: q_def a_def)
  have eps: "0 < eps" "eps \<le> 1 / 2" by (simp_all add: eps_def)
  have e1: "\<bar>es - a\<bar> \<le> a * eps"
    using to_double_error [OF a] by (simp add: es_def double_div_def a_def eps_def)
  have e2: "\<bar>x - y\<bar> \<le> y * eps"
    using to_double_error [OF y] by (simp add: x_def double_div_def y_def eps_def)
  have yq: "y - q = y * ((a - es) / a)"
    using a es by (simp add: y_def q(2) field_simps)
  have "\<bar>(a - es) / a\<bar> \<le> eps"
  proof -
    have "\<bar>(a - es) / a\<bar> = \<bar>es - a\<bar> / a"
      using a by (simp add: abs_minus_commute)
    also have "\<dots> \<le> a * eps / a"
      using e1 a by (intro divide_right_mono) simp_all
    also have "\<dots> = eps" using a by simp
    finally show ?thesis .
  qed
  then have "\<bar>y\<bar> * \<bar>(a - es) / a\<bar> \<le> \<bar>y\<bar> * eps"
    by (rule mult_left_mono) simp
  then have e3: "\<bar>y - q\<bar> \<le> y * eps"
    using y unfolding yq by (simp add: abs_mult)
  have "a * (1 - eps) \<le> es" using e1 by (simp add: right_diff_distrib abs_le_iff)
  moreover have "a * (1 / 2) \<le> a * (1 - eps)"
    using a eps by (intro mult_left_mono) simp_all
  ultimately have half: "a / 2 \<le> es" by simp
  have "y \<le> of_nat t / (a / 2)"
    unfolding y_def using half a t by (intro divide_left_mono) simp_all
  also have "of_nat t / (a / 2) = 2 * q" by (simp add: q(2))
  finally have y2: "y \<le> 2 * q" .
  have "\<bar>x - q\<bar> \<le> \<bar>x - y\<bar> + \<bar>y - q\<bar>" by simp
  also have "\<dots> \<le> 2 * (y * eps)" using e2 e3 by simp
  also have "\<dots> \<le> 2 * (2 * q * eps)"
    using y2 eps by (simp add: mult_right_mono)
  also have "\<dots> = q / 2 ^ 51" by (simp add: eps_def)
  finally show ?thesis by (simp add: x_def es_def)
qed

lemma tokenRate_of_nearest:
  fixes t :: nat and e :: int
  assumes e: "0 < e" and bound: "t \<le> 2 ^ 40"
  shows "\<bar>of_int (tokenRate_of t e) - (of_nat t / (of_int e / 1000) :: rat)\<bar> \<le> 1 / 2"
proof (cases "t = 0")
  case True
  have "\<lfloor>1 / 2 :: rat\<rfloor> = 0" by linarith
  then have "tokenRate_of 0 e = 0"
    using e by (simp add: tokenRate_of_pos_elapsed double_div_def to_double_def js_round_def)
  with True show ?thesis by simp
next
  case False
  then have t: "0 < t" by simp
  define q :: rat where "q = of_nat t / (of_int e / 1000)"
  define x where "x = double_div (of_nat t) (double_div (of_int e) 1000)"
  define k where "k = tokenRate_of t e"
  define g :: rat where "g = 1 / (2 * of_int e)"
  have k: "k = \<lfloor>x + 1 / 2\<rfloor>"
    using e by (simp add: k_def x_def tokenRate_of_pos_elapsed js_round_def)
  have kx: "of_int k \<le> x + 1 / 2" "x + 1 / 2 < of_int k + 1"
    unfolding k by linarith+
  have q': "q = 1000 * of_nat t / of_int e" by (simp add: q_def)
  have "q / 2 ^ 51 = (1000 * of_nat t / 2 ^ 51) / of_int e" by (simp add: q')
  also have "\<dots> \<le> (1000 * 2 ^ 40 / 2 ^ 51) / of_int e"
  proof -
    have "(of_nat t :: rat) \<le> of_nat (2 ^ 40)" using bound by (simp only: of_nat_le_iff)
    then have "(of_nat t :: rat) \<le> 2 ^ 40" by simp
    then show ?thesis using e by (intro divide_right_mono) simp_all
  qed
  also have "\<dots> < g"
    using e by (simp add: g_def field_simps)
  finally have small: "q / 2 ^ 51 < g" .
  have "\<bar>x - q\<bar> \<le> q / 2 ^ 51"
    unfolding x_def q_def by (rule double_quotient_error [OF e t])
  with small have close: "\<bar>x - q\<bar> < g" by simp
  have upper: "q \<le> of_int k + 1 / 2"
  proof (rule ccontr)
    assume "\<not> q \<le> of_int k + 1 / 2"
    then have "of_int k + 1 / 2 < q" by simp
    then have "(of_int (2 * k + 1) :: rat) * of_int e < of_int (2000 * int t)"
      using e by (simp add: q' field_simps)
    then have "(2 * k + 1) * e < 2000 * int t"
      by (simp only: of_int_mult [symmetric] of_int_less_iff)
    then have "(2 * k + 1) * e + 1 \<le> 2000 * int t" by simp
    then have "(of_int ((2 * k + 1) * e + 1) :: rat) \<le> of_int (2000 * int t)"
      by (simp only: of_int_le_iff)
    then have "(of_int ((2 * k + 1) * e + 1) :: rat) / (2 * of_int e)
               \<le> of_int (2000 * int t) / (2 * of_int e)"
      using e by (intro divide_right_mono) simp_all
    moreover have "(of_int ((2 * k + 1) * e + 1) :: rat) / (2 * of_int e) = of_int k + 1 / 2 + g"
      using e by (simp add: g_def field_simps)
    moreover have "(of_int (2000 * int t) :: rat) / (2 * of_int e) = q"
      using e by (simp add: q')
    ultimately have "of_int k + 1 / 2 + g \<le> q" by simp
    with kx(2) close show False by linarith
  qed
  have lower: "of_int k - 1 / 2 \<le> q"
  proof (rule ccontr)
    assume "\<not> of_int k - 1 / 2 \<le> q"
    then have "q < of_int k - 1 / 2" by simp
    then have "(of_int (2000 * int t) :: rat) < of_int (2 * k - 1) * of_int e"
      using e by (simp add: q' field_simps)
    then have "2000 * int t < (2 * k - 1) * e"
      by (simp only: of_int_mult [symmetric] of_int_less_iff)
    then have "2000 * int t + 1 \<le> (2 * k - 1) * e" by simp
    then have "(of_int (2000 * int t + 1) :: rat) \<le> of_int ((2 * k - 1) * e)"
      by (simp only: of_int_le_iff)
    then have "(of_int (2000 * int t + 1) :: rat) / (2 * of_int e)
               \<le> of_int ((2 * k - 1) * e) / (2 * of_int e)"
      using e by (intro divide_right_mono) simp_all
    moreover have "(of_int ((2 * k - 1) * e) :: rat) / (2 * of_int e) = of_int k - 1 / 2"
      using e by (simp add: field_simps)
    moreover have "(of_int (2000 * int t + 1) :: rat) / (2 * of_int e) = q + g"
      using e by (simp add: q' g_def field_simps)
    ultimately have "q + g \<le> of_int k - 1 / 2" by simp
    with kx(1) close show False by linarith
  qed
  from upper lower have "\<bar>of_int k - q\<bar> \<le> 1 / 2" by linarith
  then show ?thesis
    unfolding k_def q_def .
qed

lemma report_of_applied_choice:
  fixes now :: "nat \<Rightarrow> int" and cs :: "choice list"
  assumes "applied count c"
  defines "s \<equiv> foldl (apply_choice now count True) (init_state count) (cs @ [c])"
  shows "calls s \<noteq> []"
    and "p_totalTokens (last (calls s)) = tokens_applied count (cs @ [c])"
    and "p_tokenRate (last (calls s))
         = tokenRate_of (tokens_applied count (cs @ [c]))
             (now (length (filter (applied count) (cs @ [c]))) - now 0)"
    and "\<not> p_isComplete (last (calls s))"
proof -
  define s0 where "s0 = foldl (apply_choice now count True) (init_state count) cs"
  have s: "s = apply_choice now count True s0 c"
    by (simp add: s_def s0_def)
  have tot: "totalTokenCount s0 = tokens_applied count cs"
    by (simp add: s0_def total_foldl_apply_choice init_state_def)
  have clk: "clock_reads s0 = Suc (length (filter (applied count) cs))"
    by (simp add: s0_def clock_reads_foldl_apply_choice init_state_def)
  have app: "tokens_applied count (cs @ [c]) = tokens_applied count cs + length (delta_text c)"
    using assms(1) by (simp add: tokens_applied_def)
  show "calls s \<noteq> []"
    unfolding s by (simp add: apply_choice_applied [OF assms(1)])
  show "p_totalTokens (last (calls s)) = tokens_applied count (cs @ [c])"
    unfolding s by (simp add: apply_choice_applied [OF assms(1)] tot app)
  show "p_tokenRate (last (calls s))
         = tokenRate_of (tokens_applied count (cs @ [c]))
             (now (length (filter (applied count) (cs @ [c]))) - now 0)"
    unfolding s using assms(1) by (simp add: apply_choice_applied [OF assms(1)] tot app clk)
  show "\<not> p_isComplete (last (calls s))"
    unfolding s by (simp add: apply_choice_applied [OF assms(1)])
qed

lemma final_reports_totals:
  "p \<in> set (final_reports count bufs tokens rate) \<Longrightarrow>
   p_totalTokens p = tokens \<and> p_tokenRate p = rate \<and> p_isComplete p"
  by (auto simp: final_reports_def final_report_def)

text \<open>
  C9. Every progress report arises in one of two places. The report made for an applied
  choice \<open>c\<close>, after the choices \<open>cs\<close>, carries as total the sum of the lengths of all
  deltas applied so far, which is the sum of the lengths of all buffers, and as rate
  \<open>tokenRate_of\<close> of that total and of the time elapsed since the start. Every report of
  the final loop carries the final total and the rate of the final total and the time
  elapsed at the end. The rate is never negative and is 0 when no time has elapsed;
  otherwise it is \<open>Math.round\<close> of the quotient as the two double divisions give it,
  and that is an integer nearest to the exact quotient of the total by the elapsed
  seconds (at an exact tie the doubles may give either neighbour) for every total up to
  \<open>2^40\<close>, more characters than the buffers of a run can hold.
\<close>

theorem progress_reports_totals_and_rates:
  "onProgress \<Longrightarrow>
   (applied count c \<longrightarrow>
      (let s = foldl (apply_choice now count onProgress) (init_state count) (cs @ [c]);
           tokens = tokens_applied count (cs @ [c]);
           elapsed = now (length (filter (applied count) (cs @ [c]))) - now 0
       in calls s \<noteq> [] \<and>
          p_totalTokens (last (calls s)) = tokens \<and>
          tokens = sum_list (map length (contentBuffers s)) \<and>
          p_tokenRate (last (calls s)) = tokenRate_of tokens elapsed)) \<and>
   (let s = foldl (apply_choice now count onProgress) (init_state count) cs;
        tokens = tokens_applied count cs;
        elapsed = now (Suc (length (filter (applied count) cs))) - now 0
    in \<forall>p \<in> set (drop (length (calls s)) (calls (fst (finalize now count onProgress s)))).
         p_totalTokens p = tokens \<and>
         tokens = sum_list (map length (contentBuffers s)) \<and>
         p_tokenRate p = tokenRate_of tokens elapsed) \<and>
   (\<forall>t e. 0 \<le> tokenRate_of t e \<and>
          (e \<le> 0 \<longrightarrow> tokenRate_of t e = 0) \<and>
          (0 < e \<longrightarrow>
             tokenRate_of t e
               = js_round (double_div (of_nat t) (double_div (of_int e) 1000)) \<and>
             (t \<le> 2 ^ 40 \<longrightarrow>
                \<bar>of_int (tokenRate_of t e) - (of_nat t / (of_int e / 1000) :: rat)\<bar> \<le> 1 / 2)))"
proof -
  assume cb: "onProgress"
  have len: "length (contentBuffers (init_state count)) = nat count"
    and zero: "sum_list (map length (contentBuffers (init_state count))) = 0"
    by (simp_all add: init_state_def)
  have sums: "\<And>xs. sum_list (map length
                 (contentBuffers (foldl (apply_choice now count True) (init_state count) xs)))
               = tokens_applied count xs"
    using sum_buffers_foldl_apply_choice [OF len] zero by simp
  have first: "applied count c \<longrightarrow>
      (let s = foldl (apply_choice now count True) (init_state count) (cs @ [c]);
           tokens = tokens_applied count (cs @ [c]);
           elapsed = now (length (filter (applied count) (cs @ [c]))) - now 0
       in calls s \<noteq> [] \<and>
          p_totalTokens (last (calls s)) = tokens \<and>
          tokens = sum_list (map length (contentBuffers s)) \<and>
          p_tokenRate (last (calls s)) = tokenRate_of tokens elapsed)"
    unfolding Let_def
    using report_of_applied_choice [where count=count and c=c and now=now and cs=cs] sums [of "cs @ [c]"] by simp
  have second: "(let s = foldl (apply_choice now count True) (init_state count) cs;
        tokens = tokens_applied count cs;
        elapsed = now (Suc (length (filter (applied count) cs))) - now 0
    in \<forall>p \<in> set (drop (length (calls s)) (calls (fst (finalize now count True s)))).
         p_totalTokens p = tokens \<and>
         tokens = sum_list (map length (contentBuffers s)) \<and>
         p_tokenRate p = tokenRate_of tokens elapsed)"
    unfolding Let_def
    using sums [of cs]
    by (auto simp: finalize_eq total_foldl_apply_choice clock_reads_foldl_apply_choice
          init_state_def dest!: final_reports_totals)
  have third: "\<forall>t e. 0 \<le> tokenRate_of t e \<and>
          (e \<le> 0 \<longrightarrow> tokenRate_of t e = 0) \<and>
          (0 < e \<longrightarrow>
             tokenRate_of t e
               = js_round (double_div (of_nat t) (double_div (of_int e) 1000)) \<and>
             (t \<le> 2 ^ 40 \<longrightarrow>
                \<bar>of_int (tokenRate_of t e) - (of_nat t / (of_int e / 1000) :: rat)\<bar> \<le> 1 / 2))"
    using tokenRate_of_nonneg tokenRate_of_nonpos_elapsed tokenRate_of_pos_elapsed
      tokenRate_of_nearest by blast
  from cb have "onProgress = True" by simp
  with first second third show ?thesis by blast
qed

theorem progress_reports_totals_and_rates_witness:
  "applied 3 (mk_choice 1 ''cd'') \<and>
   (let s = foldl (apply_choice (\<lambda>k. 1000 * int k) 3 True) (init_state 3)
              ([mk_choice 0 ''ab''] @ [mk_choice 1 ''cd'']);
        tokens = tokens_applied 3 ([mk_choice 0 ''ab''] @ [mk_choice 1 ''cd'']);
        elapsed = (\<lambda>k. 1000 * int k)
                    (length (filter (applied 3) ([mk_choice 0 ''ab''] @ [mk_choice 1 ''cd''])))
                  - (\<lambda>k. 1000 * int k) 0
    in calls s \<noteq> [] \<and>
       p_totalTokens (last (calls s)) = tokens \<and>
       tokens = sum_list (map length (contentBuffers s)) \<and>
       p_tokenRate (last (calls s)) = tokenRate_of tokens elapsed) \<and>
   tokens_applied 3 ([mk_choice 0 ''ab''] @ [mk_choice 1 ''cd'']) = 4 \<and>
   tokenRate_of 4 2000 = 2 \<and> tokenRate_of 5 0 = 0 \<and> tokenRate_of 5 3000 = 2 \<and>
   (0::int) < 272 \<and> (17::nat) \<le> 2 ^ 40 \<and>
   \<bar>of_int (tokenRate_of 17 272) - (of_nat 17 / (of_int 272 / 1000) :: rat)\<bar> \<le> 1 / 2 \<and>
   tokenRate_of 17 272 = 62 \<and> tokenRate_of 7 560 = 12"
proof -
  have hyp: "applied 3 (mk_choice 1 ''cd'')" by code_simp
  have vals: "tokens_applied 3 ([mk_choice 0 ''ab''] @ [mk_choice 1 ''cd'']) = 4 \<and>
     tokenRate_of 4 2000 = 2 \<and> tokenRate_of 5 0 = 0 \<and> tokenRate_of 5 3000 = 2"
    by code_simp
  have ties: "tokenRate_of 17 272 = 62 \<and> tokenRate_of 7 560 = 12"
    by code_simp
  have pos: "(0::int) < 272" and small: "(17::nat) \<le> 2 ^ 40"
    by simp_all
  note inst = progress_reports_totals_and_rates [where onProgress = True and count = 3
      and c = "mk_choice 1 ''cd''" and now = "\<lambda>k. 1000 * int k" and cs = "[mk_choice 0 ''ab'']",
      OF TrueI]
  note report = inst [THEN conjunct1, THEN mp, OF hyp]
  note near = inst [THEN conjunct2, THEN conjunct2, THEN spec, THEN spec, THEN conjunct2,
      THEN conjunct2, THEN mp, OF pos, THEN conjunct2, THEN mp, OF small]
  from hyp report vals pos small near ties show ?thesis by (intro conjI) blast+
qed

section \<open>Flushing\<close>

lemma length_merge_updates [simp]: "length (merge_updates u prev) = length prev"
  by (simp add: merge_updates_def)

lemma nth_merge_updates:
  "i < length prev \<Longrightarrow>
   merge_updates u prev ! i =
     (case map_of u i of
        Some c \<Rightarrow> (prev ! i)\<lparr>result_content := c, isLoading := False\<rparr>
      | None \<Rightarrow> prev ! i)"
  by (simp add: merge_updates_def)

lemma merge_updates_idem: "merge_updates u (merge_updates u prev) = merge_updates u prev"
  by (rule nth_equalityI) (simp_all add: nth_merge_updates split: option.splits)

lemma updateSessionStorage_other [simp]:
  "results (updateSessionStorage s) = results s"
  "channel (updateSessionStorage s) = channel s"
  "updateBuffer (updateSessionStorage s) = updateBuffer s"
  "updateTimeout (updateSessionStorage s) = updateTimeout s"
  by (simp_all add: updateSessionStorage_def split_beta Let_def split: option.splits)

text \<open>
  C7. \<open>flushUpdates\<close> leaves the pending map as it is, and a second flush with no
  update in between leaves the results on the page and the saved item as the first flush
  left them.
\<close>

theorem flush_keeps_pending_and_is_idempotent:
  "updateBuffer (flushUpdates s) = updateBuffer s \<and>
   results (flushUpdates (flushUpdates s)) = results (flushUpdates s) \<and>
   chatPageResults (flushUpdates (flushUpdates s)) = chatPageResults (flushUpdates s)"
  by (simp add: flushUpdates_def Let_def merge_updates_idem)

section \<open>The request\<close>

lemma length_process_line [simp]:
  "length (contentBuffers (process_line decode now count cb s line)) = length (contentBuffers s)"
  by (simp add: process_line_flat)

lemma length_foldl_process_line [simp]:
  "length (contentBuffers (foldl (process_line decode now count cb) s lines))
   = length (contentBuffers s)"
  by (simp add: foldl_process_line_flat)

lemma length_read_loop [simp]:
  "length (contentBuffers (fst (read_loop decode now count cb p s reads)))
   = length (contentBuffers s)"
  by (induction decode now count cb p s reads rule: read_loop.induct)
     (simp_all add: split_beta Let_def)

lemma buffers_foldl_final_step [simp]:
  "contentBuffers (fst (foldl (final_step cb rate) (s, res) ixs)) = contentBuffers s"
  by (cases cb) (simp_all add: foldl_final_step foldl_final_step_no_cb)

lemma length_finalize [simp]:
  "length (contentBuffers (fst (finalize now count cb s))) = length (contentBuffers s)"
  by (simp add: finalize_def Let_def)

lemma length_executeGeneration:
  "length (contentBuffers (fst (executeGeneration decode now count cb resp))) = nat count"
proof (cases resp)
  case (Body reads)
  obtain s e where r: "read_loop decode now count cb [] (init_state count) reads = (s, e)"
    by (cases "read_loop decode now count cb [] (init_state count) reads")
  have "length (contentBuffers (init_state count)) = nat count"
    by (simp add: init_state_def)
  with length_read_loop [of decode now count cb "[]" "init_state count" reads]
  have "length (contentBuffers s) = nat count"
    unfolding r by simp
  then show ?thesis
    using Body r length_finalize [of now count cb s]
    by (cases e) (simp_all add: executeGeneration_def split_beta)
qed (simp_all add: executeGeneration_def init_state_def)

text \<open>
  C10. When the first argument is an array of prompts, the \<open>contents\<close> of the request
  are that array as it is, the run is \<open>_executeGeneration\<close> with the length of the array
  as count, whatever \<open>count\<close> was passed, and so the run has that many buffers. When it
  is one string, \<open>contents\<close> is \<open>count\<close> copies of the string wrapped in the template
  and the count is the one passed.
\<close>

theorem array_prompts_sent_verbatim:
  "body_contents (fst (generateMultipleResponses decode now promptPrefix (Multiple prompts)
      count onProgress maxTokens resp)) = prompts \<and>
   actualCount (Multiple prompts) count = int (length prompts) \<and>
   length (contentBuffers (fst (snd (generateMultipleResponses decode now promptPrefix
      (Multiple prompts) count onProgress maxTokens resp)))) = length prompts \<and>
   snd (generateMultipleResponses decode now promptPrefix (Multiple prompts) count onProgress
      maxTokens resp) = executeGeneration decode now (int (length prompts)) onProgress resp \<and>
   body_contents (fst (generateMultipleResponses decode now promptPrefix (Single msg)
      count onProgress maxTokens resp)) = replicate (nat count) (prompt_template promptPrefix msg) \<and>
   actualCount (Single msg) count = count"
  by (simp add: generateMultipleResponses_def build_contents_def actualCount_def
        length_executeGeneration)

section \<open>Cancellation and failure\<close>

lemma stop_results_nth:
  "i < length (results s) \<Longrightarrow>
   results (handleStopGenerate s) ! i =
     (case map_of (updateBuffer s) i of
        Some c \<Rightarrow> (results s ! i)\<lparr>result_content := c, isLoading := False\<rparr>
      | None \<Rightarrow> (results s ! i)\<lparr>isLoading := False\<rparr>)"
proof (cases "updateBuffer s = []")
  case True
  assume "i < length (results s)"
  with True show ?thesis by (simp add: handleStopGenerate_def Let_def)
next
  case False
  assume "i < length (results s)"
  with False show ?thesis by (simp add: handleStopGenerate_def Let_def)
qed

lemma stop_results_length [simp]: "length (results (handleStopGenerate s)) = length (results s)"
  by (simp add: handleStopGenerate_def Let_def)

lemma stop_not_loading: "r \<in> set (results (handleStopGenerate s)) \<Longrightarrow> \<not> isLoading r"
  by (auto simp: handleStopGenerate_def Let_def split: if_splits option.splits dest!: set_zip_leftD)

lemma stop_saved: "chatPageResults (handleStopGenerate s) = Some (results (handleStopGenerate s))"
  by (simp add: handleStopGenerate_def Let_def)

lemma map_not_loading_id:
  "\<forall>r \<in> set rs. \<not> isLoading r \<Longrightarrow> map (\<lambda>r. r\<lparr>isLoading := False\<rparr>) rs = rs"
  by (induction rs) simp_all

lemma cancellation_keeps_content:
  "(\<forall>r \<in> set (results (generate_catch (handleStopGenerate s))). \<not> isLoading r) \<and>
   length (results (generate_catch (handleStopGenerate s))) = length (results s) \<and>
   (\<forall>i < length (results s).
      result_content (results (generate_catch (handleStopGenerate s)) ! i) =
        (case map_of (updateBuffer s) i of
           Some c \<Rightarrow> c
         | None \<Rightarrow> result_content (results s ! i))) \<and>
   chatPageResults (generate_catch (handleStopGenerate s))
     = Some (results (generate_catch (handleStopGenerate s))) \<and>
   updateBuffer (generate_catch (handleStopGenerate s)) = updateBuffer s"
proof -
  have same: "results (generate_catch (handleStopGenerate s)) = results (handleStopGenerate s)"
    using stop_not_loading [of _ s] by (simp add: generate_catch_def map_not_loading_id)
  have content: "\<forall>i < length (results s).
      result_content (results (handleStopGenerate s) ! i) =
        (case map_of (updateBuffer s) i of
           Some c \<Rightarrow> c
         | None \<Rightarrow> result_content (results s ! i))"
    by (simp add: stop_results_nth split: option.splits)
  have saved: "chatPageResults (generate_catch (handleStopGenerate s))
               = Some (results (handleStopGenerate s))"
    by (simp add: generate_catch_def stop_saved)
  have buf: "updateBuffer (generate_catch (handleStopGenerate s)) = updateBuffer s"
    by (simp add: generate_catch_def handleStopGenerate_def Let_def)
  have stop: "(\<forall>r \<in> set (results (handleStopGenerate s)). \<not> isLoading r) \<and>
      length (results (handleStopGenerate s)) = length (results s)"
    using stop_not_loading [of _ s] by simp
  show ?thesis
    unfolding same saved buf using stop content by blast
qed

lemma failure_keeps_results:
  "(\<forall>r \<in> set (results (generate_catch s)). \<not> isLoading r) \<and>
   map result_content (results (generate_catch s)) = map result_content (results s) \<and>
   chatPageResults (generate_catch s) = chatPageResults s \<and>
   updateBuffer (generate_catch s) = updateBuffer s \<and>
   updateTimeout (generate_catch s) = updateTimeout s"
  by (auto simp: generate_catch_def)

lemma advance_to_render_first:
  "renderPending s \<Longrightarrow> advance_to T s = s\<lparr>renderPending := False, updateTimeout := None\<rparr>"
  by (simp add: advance_to_def rerender_def effect_cleanup_def)

lemma advance_to_idle:
  "\<not> renderPending s \<Longrightarrow> updateTimeout s = None \<Longrightarrow> advance_to T s = s"
  by (simp add: advance_to_def rerender_def)

text \<open>
  C8. After a cancellation (\<open>handleStopGenerate\<close>, then the \<open>catch\<close> block) no result
  is loading and the pending contents are in the results and in the saved item; after a
  failure no result is loading and the \<open>catch\<close> block changes no content. But the
  \<open>catch\<close> block does not flush, and the timeout that a short update set was cleared
  by the cleanup of the effect when the component re-rendered. In the failed run of
  \<open>failure_scenario\<close> the run has accumulated ``ab'' for index 0 and reported it, and
  whenever the event loop gets a turn after the failure no result is loading, but the
  content of every result is empty, the item was not saved, no timeout is pending, and
  ``ab'' is in the pending map only. (With the effect that saves in idle time the item
  holds the results as they are, with empty contents.)
\<close>

theorem failed_run_loses_pending_content:
  "snd (generateMultipleResponses scenario_decode (\<lambda>k. 1000 * int k) ''P'' (Single ''Q'') 8
          True None failed_response)
     = (\<lparr>contentBuffers = [''ab'', [], [], [], [], [], [], []], totalTokenCount = 2,
          clock_reads = 2,
          calls = [\<lparr>p_index = 0, p_content = ''ab'', p_isComplete = False, p_tokenRate = 2,
                    p_totalTokens = 2\<rparr>]\<rparr>,
        Inl NetworkError) \<and>
   reports_of failed_run_events
     = [\<lparr>p_index = 0, p_content = ''ab'', p_isComplete = False, p_tokenRate = 2,
         p_totalTokens = 2\<rparr>] \<and>
   map isLoading (results (failure_scenario T)) = replicate 8 False \<and>
   map result_content (results (failure_scenario T)) = replicate 8 [] \<and>
   chatPageResults (failure_scenario T) = None \<and>
   updateTimeout (failure_scenario T) = None \<and>
   updateBuffer (failure_scenario T) = [(0, ''ab'')] \<and>
   advance_to T' (failure_scenario T) = failure_scenario T"
proof -
  define h where "h = handleGenerate scenario_decode (\<lambda>k. 1000 * int k) ''P'' ''Q'' 8
                        failed_response failed_run_events fresh_page"
  have run: "snd (generateMultipleResponses scenario_decode (\<lambda>k. 1000 * int k) ''P''
          (Single ''Q'') 8 True None failed_response)
     = (\<lparr>contentBuffers = [''ab'', [], [], [], [], [], [], []], totalTokenCount = 2,
          clock_reads = 2,
          calls = [\<lparr>p_index = 0, p_content = ''ab'', p_isComplete = False, p_tokenRate = 2,
                    p_totalTokens = 2\<rparr>]\<rparr>,
        Inl NetworkError)"
    by code_simp
  have evs: "reports_of failed_run_events
     = [\<lparr>p_index = 0, p_content = ''ab'', p_isComplete = False, p_tokenRate = 2,
         p_totalTokens = 2\<rparr>]"
    by (simp add: failed_run_events_def)
  have pending: "renderPending h"
    by (simp add: h_def handleGenerate_def Let_def)
  have fields: "map isLoading (results h) = replicate 8 False"
    "map result_content (results h) = replicate 8 []"
    "chatPageResults h = None"
    "updateBuffer h = [(0, ''ab'')]"
    unfolding h_def by code_simp+
  have after: "failure_scenario T = h\<lparr>renderPending := False, updateTimeout := None\<rparr>"
    unfolding failure_scenario_def h_def [symmetric] by (rule advance_to_render_first [OF pending])
  have rest: "advance_to T' (failure_scenario T) = failure_scenario T"
    unfolding after by (rule advance_to_idle) simp_all
  show ?thesis
    using run evs fields rest by (simp add: after)
qed

section \<open>The update scheduler\<close>

lemma patch_saved_noop:
  "\<forall>(i, c) \<in> set us. map_of u i = Some c \<Longrightarrow>
   fst (foldl patch_saved (merge_updates u prev, b) us) = merge_updates u prev"
proof (induction us arbitrary: b)
  case Nil
  show ?case by simp
next
  case (Cons x us)
  obtain i c where x: "x = (i, c)" by (cases x)
  have m: "map_of u i = Some c" using Cons.prems x by simp
  have "i < length prev \<Longrightarrow>
        (merge_updates u prev)[i := (prev ! i)\<lparr>result_content := c, isLoading := False\<rparr>]
        = merge_updates u prev"
    using m by (metis (no_types, lifting) list_update_id nth_merge_updates option.simps(5))
  then have step: "fst (patch_saved (merge_updates u prev, b) x) = merge_updates u prev"
    using m by (simp add: patch_saved_def x nth_merge_updates)
  obtain b' where "patch_saved (merge_updates u prev, b) x = (merge_updates u prev, b')"
    using step by (cases "patch_saved (merge_updates u prev, b) x") simp
  then show ?case using Cons.IH [of b'] Cons.prems by simp
qed

lemma flush_then_storage:
  assumes "distinct (map fst (updateBuffer s))" "updateBuffer s \<noteq> []"
  shows "chatPageResults (updateSessionStorage (flushUpdates s))
         = Some (merge_updates (updateBuffer s) (results s))"
proof -
  let ?u = "updateBuffer s"
  let ?R = "merge_updates ?u (results s)"
  have "\<forall>(i, c) \<in> set ?u. map_of ?u i = Some c"
    using assms(1) by auto
  then have "\<And>b. fst (foldl patch_saved (?R, b) ?u) = ?R"
    by (rule patch_saved_noop)
  then show ?thesis
    using assms(2)
    by (simp add: updateSessionStorage_def flushUpdates_def Let_def split_beta)
qed

lemma flushUpdates_nonempty:
  "updateBuffer s \<noteq> [] \<Longrightarrow>
   results (flushUpdates s) = merge_updates (updateBuffer s) (results s) \<and>
   channel (flushUpdates s) = channel s @ posted_for (updateBuffer s) \<and>
   updateBuffer (flushUpdates s) = updateBuffer s \<and>
   updateTimeout (flushUpdates s) = updateTimeout s"
  by (simp add: flushUpdates_def Let_def posted_for_def)

lemma setTokenStats_other [simp]:
  "results (setTokenStats r n s) = results s"
  "channel (setTokenStats r n s) = channel s"
  "updateBuffer (setTokenStats r n s) = updateBuffer s"
  "updateTimeout (setTokenStats r n s) = updateTimeout s"
  "chatPageResults (setTokenStats r n s) = chatPageResults s"
  "totalTokens (setTokenStats r n s) = n"
  "tokenRate (setTokenStats r n s) = r"
  by (simp_all add: setTokenStats_def)

lemma onProgress_generate_immediate:
  assumes "distinct (map fst (updateBuffer s))"
    and "length (p_content p) > 100 \<or> p_isComplete p"
  defines "pending \<equiv> AList.update (p_index p) (p_content p) (updateBuffer s)"
  shows "updateBuffer (onProgress_generate t s p) = pending"
    and "updateTimeout (onProgress_generate t s p) = None"
    and "channel (onProgress_generate t s p) = channel s @ posted_for pending"
    and "results (onProgress_generate t s p) = merge_updates pending (results s)"
    and "chatPageResults (onProgress_generate t s p) = Some (merge_updates pending (results s))"
proof -
  define x where "x = (if p_isComplete p
      then (setTokenStats (p_tokenRate p) (p_totalTokens p) s)
             \<lparr>updateBuffer := pending,
              completedIndexes := insert (p_index p) (completedIndexes s),
              renderPending := True,
              updateTimeout := None\<rparr>
      else (setTokenStats (p_tokenRate p) (p_totalTokens p) s)
             \<lparr>updateBuffer := pending, updateTimeout := None\<rparr>)"
  have run: "onProgress_generate t s p = updateSessionStorage (flushUpdates x)"
    using assms(2)
    by (auto simp: onProgress_generate_def Let_def x_def pending_def setTokenStats_def)
  have xb: "updateBuffer x = pending" and xr: "results x = results s"
    and xc: "channel x = channel s" and xt: "updateTimeout x = None"
    by (simp_all add: x_def)
  have ne: "updateBuffer x \<noteq> []" by (simp add: xb pending_def)
  have d: "distinct (map fst (updateBuffer x))"
    using assms(1) by (simp add: xb pending_def distinct_update)
  show "updateBuffer (onProgress_generate t s p) = pending"
    and "updateTimeout (onProgress_generate t s p) = None"
    and "channel (onProgress_generate t s p) = channel s @ posted_for pending"
    and "results (onProgress_generate t s p) = merge_updates pending (results s)"
    using flushUpdates_nonempty [OF ne] by (simp_all add: run xb xr xc xt)
  show "chatPageResults (onProgress_generate t s p) = Some (merge_updates pending (results s))"
    using flush_then_storage [OF d ne] by (simp add: run xb xr)
qed

lemma onProgress_generate_throttled:
  assumes "\<not> (length (p_content p) > 100 \<or> p_isComplete p)"
  shows "onProgress_generate t s p =
     (setTokenStats (p_tokenRate p) (p_totalTokens p) s)
       \<lparr>updateBuffer := AList.update (p_index p) (p_content p) (updateBuffer s),
        updateTimeout := Some (t + 300, GenerateTimer)\<rparr>"
  using assms by (simp add: onProgress_generate_def Let_def)

lemma throttled_timeout_is_cleared:
  assumes "\<not> (length (p_content p) > 100 \<or> p_isComplete p)"
    and "renderPending s \<or> p_tokenRate p \<noteq> tokenRate s \<or> p_totalTokens p \<noteq> totalTokens s"
  shows "advance_to T (onProgress_generate t s p) =
     (setTokenStats (p_tokenRate p) (p_totalTokens p) s)
       \<lparr>updateBuffer := AList.update (p_index p) (p_content p) (updateBuffer s),
        updateTimeout := None, renderPending := False\<rparr>"
proof -
  have "renderPending (onProgress_generate t s p)"
    using assms(2) by (auto simp: onProgress_generate_throttled [OF assms(1)] setTokenStats_def)
  from advance_to_render_first [OF this]
  show ?thesis by (simp add: onProgress_generate_throttled [OF assms(1)])
qed

text \<open>
  C3. The callback of \<open>handleGenerate\<close> does what the rule says: an update longer than
  100 characters or final clears the timeout and flushes all pending updates at once
  (\<open>onProgress_generate_immediate\<close>); any other update restarts the timeout of 300 ms
  (\<open>onProgress_generate_throttled\<close>). But every update changes the token count, so the
  component re-renders, and the cleanup of the effect clears the timeout before it is due
  (\<open>throttled_timeout_is_cleared\<close>). In Scenario D, with short updates for index 0 at
  0 ms and at 50 ms, nothing is ever flushed: at whatever time the event loop gets its
  turn, at the 300 ms mark or later, no message has been posted, the results are the
  empty placeholders, nothing is saved, no timeout is pending, and the latest content is
  in the pending map only.
\<close>

theorem throttled_updates_are_never_flushed:
  "channel (scenario_D T) = [] \<and>
   results (scenario_D T) = placeholders 8 \<and>
   chatPageResults (scenario_D T) = None \<and>
   updateTimeout (scenario_D T) = None \<and>
   updateBuffer (scenario_D T) = [(0, ''Once upon'')] \<and>
   advance_to T' (scenario_D T) = scenario_D T"
proof -
  define s0 where "s0 = start_generate 8 fresh_page"
  define s1 where "s1 = advance_to 50 (onProgress_generate 0 s0 (short_report 0 ''Once''))"
  have short: "\<not> (length (p_content (short_report 0 ''Once'')) > 100
                  \<or> p_isComplete (short_report 0 ''Once''))"
    "\<not> (length (p_content (short_report 0 ''Once upon'')) > 100
        \<or> p_isComplete (short_report 0 ''Once upon''))"
    by (simp_all add: short_report_def)
  have s0: "renderPending s0" "channel s0 = []" "results s0 = placeholders 8"
    "chatPageResults s0 = None" "updateBuffer s0 = []"
    by (simp_all add: s0_def start_generate_def fresh_page_def)
  have s1_eq: "s1 = (setTokenStats 0 (length ''Once'') s0)
       \<lparr>updateBuffer := [(0, ''Once'')], updateTimeout := None, renderPending := False\<rparr>"
    unfolding s1_def
    using throttled_timeout_is_cleared [OF short(1), of s0 50 0] s0
    by (simp add: short_report_def)
  have changed: "renderPending s1 \<or> p_tokenRate (short_report 0 ''Once upon'') \<noteq> tokenRate s1
                 \<or> p_totalTokens (short_report 0 ''Once upon'') \<noteq> totalTokens s1"
    by (simp add: s1_eq short_report_def)
  have run: "scenario_D T = (setTokenStats 0 (length ''Once upon'') s1)
       \<lparr>updateBuffer := [(0, ''Once upon'')], updateTimeout := None, renderPending := False\<rparr>"
    unfolding scenario_D_def s0_def [symmetric] s1_def [symmetric]
    using throttled_timeout_is_cleared [OF short(2) changed, of T 50]
    by (simp add: short_report_def s1_eq)
  have idle: "advance_to T' (scenario_D T) = scenario_D T"
    unfolding run by (rule advance_to_idle) simp_all
  show ?thesis
    using idle by (simp add: run s1_eq s0)
qed

section \<open>Continuation runs\<close>

lemma last_report_Cons:
  "last_report i (p # ps) =
     (case last_report i ps of
        None \<Rightarrow> if p_index p = i then Some p else None
      | Some q \<Rightarrow> Some q)"
  by (simp add: last_report_def Let_def)

lemma flushUpdates_buffer [simp]: "updateBuffer (flushUpdates s) = updateBuffer s"
  by (simp add: flushUpdates_def Let_def)

lemma flushUpdates_length [simp]: "length (results (flushUpdates s)) = length (results s)"
  by (simp add: flushUpdates_def Let_def)

lemma advance_to_buffer [simp]: "updateBuffer (advance_to t s) = updateBuffer s"
  by (simp add: advance_to_def rerender_def effect_cleanup_def Let_def
        split: option.splits timer_kind.splits)

lemma advance_to_length [simp]: "length (results (advance_to t s)) = length (results s)"
  by (simp add: advance_to_def rerender_def effect_cleanup_def Let_def
        split: option.splits timer_kind.splits)

lemma onProgress_continue_buffer:
  "updateBuffer (onProgress_continue contexts t s p) =
     AList.update (p_index p)
       ((if p_index p < length contexts then contexts ! p_index p else [])
        @ [newline, newline] @ p_content p)
       (updateBuffer s)"
  by (simp add: onProgress_continue_def Let_def)

lemma onProgress_continue_length [simp]:
  "length (results (onProgress_continue contexts t s p)) = length (results s)"
  by (simp add: onProgress_continue_def Let_def)

lemma page_step_simps [simp]:
  "page_step callback s (Report t p) = callback t s p"
  "page_step callback s (Elapse t) = advance_to t s"
  by (simp_all add: page_step_def)

lemma continue_events_length [simp]:
  "length (results (foldl (page_step (onProgress_continue contexts)) s evs)) = length (results s)"
proof (induction evs arbitrary: s)
  case Nil
  show ?case by simp
next
  case (Cons e evs)
  show ?case by (cases e) (simp_all add: Cons.IH)
qed

lemma continue_events_buffer:
  "map_of (updateBuffer (foldl (page_step (onProgress_continue contexts)) s evs)) i =
     (case last_report i (reports_of evs) of
        None \<Rightarrow> map_of (updateBuffer s) i
      | Some p \<Rightarrow>
          Some ((if i < length contexts then contexts ! i else []) @ [newline, newline] @ p_content p))"
proof (induction evs arbitrary: s)
  case Nil
  show ?case by (simp add: last_report_def)
next
  case (Cons e evs)
  show ?case
  proof (cases e)
    case (Report t p)
    show ?thesis
      unfolding Report
      by (simp add: Cons.IH last_report_Cons onProgress_continue_buffer
            update_conv' split: option.splits)
  next
    case (Elapse t)
    show ?thesis
      unfolding Elapse by (simp add: Cons.IH split: option.splits)
  qed
qed

lemma last_report_final:
  assumes "i < nat count" "bufs ! i \<noteq> []"
  shows "last_report i (running @ final_reports count bufs tokens rate)
         = Some (final_report bufs tokens rate i)"
proof -
  have "filter (\<lambda>p. p_index p = i) (final_reports count bufs tokens rate)
        = [final_report bufs tokens rate i]"
    using assms filter_index_final_reports [of i bufs tokens rate "\<lambda>i. bufs ! i \<noteq> []" "nat count"]
    by (simp add: final_reports_def final_report_def filter_map comp_def)
  then show ?thesis
    by (simp add: last_report_def Let_def)
qed

lemma report_content_of_applied_choice:
  fixes now :: "nat \<Rightarrow> int" and cs :: "choice list"
  assumes "applied count c"
  defines "s \<equiv> foldl (apply_choice now count True) (init_state count) (cs @ [c])"
  shows "p_index (last (calls s)) = nat (choice_index c)"
    and "p_content (last (calls s)) = deltas_for (nat (choice_index c)) (cs @ [c])"
proof -
  define s0 where "s0 = foldl (apply_choice now count True) (init_state count) cs"
  have s: "s = apply_choice now count True s0 c"
    by (simp add: s_def s0_def)
  have in_range: "nat (choice_index c) < nat count"
    using assms(1) by (simp add: applied_def)
  have len0: "length (contentBuffers (init_state count)) = nat count"
    by (simp add: init_state_def)
  have len: "length (contentBuffers s0) = nat count"
    by (simp add: s0_def init_state_def)
  have "contentBuffers s ! nat (choice_index c)
        = contentBuffers (init_state count) ! nat (choice_index c)
          @ deltas_for (nat (choice_index c)) (cs @ [c])"
    unfolding s_def by (rule buffers_foldl_apply_choice [OF len0 in_range])
  then have bufs: "contentBuffers s ! nat (choice_index c)
                   = deltas_for (nat (choice_index c)) (cs @ [c])"
    using in_range by (simp add: init_state_def)
  show "p_index (last (calls s)) = nat (choice_index c)"
    unfolding s by (simp add: apply_choice_applied [OF assms(1)])
  have "p_content (last (calls s)) = contentBuffers s ! nat (choice_index c)"
    unfolding s by (simp add: apply_choice_applied [OF assms(1)])
  with bufs show "p_content (last (calls s)) = deltas_for (nat (choice_index c)) (cs @ [c])"
    by simp
qed

lemma continue_update_records_context:
  "p_index p < length contexts \<Longrightarrow>
   map_of (updateBuffer (onProgress_continue contexts t s p)) (p_index p)
     = Some (contexts ! p_index p @ [newline, newline] @ p_content p)"
  by (simp add: onProgress_continue_buffer update_conv')

lemma continue_run_final:
  fixes s :: page_state
  assumes guard: "hasValidContent s" "\<not> isContinuing s" "\<not> isGenerating s"
    and ctx: "contexts = map result_content (results s)"
    and run: "snd (generateMultipleResponses decode now promptPrefix (Multiple contexts)
                (int totalCount) True None (Body (map Value chunks))) = (st, out)"
    and sched: "reports_of evs = calls st"
    and i: "i < length contexts" "contentBuffers st ! i \<noteq> []"
  defines "final \<equiv> handleContinueGenerate decode now promptPrefix totalCount
                      (Body (map Value chunks)) evs s"
  shows "result_content (results final ! i)
           = contexts ! i @ [newline, newline] @ contentBuffers st ! i"
    and "chatPageResults final = Some (results final)"
    and "\<not> isLoading (results final ! i)"
    and "length (results final) = length contexts"
proof -
  define count where "count = int (length contexts)"
  define g where "g = foldl (apply_choice now count True) (init_state count)
                        (stream_choices decode chunks)"
  have exec: "executeGeneration decode now count True (Body (map Value chunks)) = (st, out)"
    using run by (simp add: generateMultipleResponses_def actualCount_def count_def)
  have st: "calls st = calls g @ final_reports count (contentBuffers g) (totalTokenCount g)
                         (tokenRate_of (totalTokenCount g) (now (clock_reads g) - now 0))"
    and bufs: "contentBuffers st = contentBuffers g" and out: "out = Inr (contentBuffers g)"
    using exec unfolding executeGeneration_normal_cb g_def [symmetric] by auto
  have i': "i < nat count" "contentBuffers g ! i \<noteq> []"
    using i by (simp_all add: count_def bufs)
  define s1 where "s1 = foldl (page_step (onProgress_continue contexts))
                          (s\<lparr>isContinuing := True, renderPending := True\<rparr>) evs"
  define full where "full = contexts ! i @ [newline, newline] @ contentBuffers st ! i"
  have "last_report i (reports_of evs)
        = Some (final_report (contentBuffers g) (totalTokenCount g)
                  (tokenRate_of (totalTokenCount g) (now (clock_reads g) - now 0)) i)"
    unfolding sched st by (rule last_report_final [OF i'])
  then have pending: "map_of (updateBuffer s1) i = Some full"
    using i(1) by (simp add: s1_def continue_events_buffer final_report_def bufs full_def)
  then have ne: "updateBuffer s1 \<noteq> []" by auto
  have len1: "length (results s1) = length contexts"
    by (simp add: s1_def ctx)
  have fin: "final = (final_save (continue_completed s1))
                       \<lparr>isContinuing := False, renderPending := True\<rparr>"
    using guard
    by (simp add: final_def handleContinueGenerate_def Let_def ctx [symmetric] run out
          s1_def [symmetric])
  have res: "results final = merge_updates (updateBuffer s1) (results s1)"
    using ne by (simp add: fin final_save_def continue_completed_def flushUpdates_def Let_def)
  show "result_content (results final ! i)
           = contexts ! i @ [newline, newline] @ contentBuffers st ! i"
    using i(1) len1 pending by (simp add: res nth_merge_updates full_def)
  show "\<not> isLoading (results final ! i)"
    using i(1) len1 pending by (simp add: res nth_merge_updates)
  show "length (results final) = length contexts"
    by (simp add: res len1)
  show "chatPageResults final = Some (results final)"
    using ne
    by (simp add: fin final_save_def continue_completed_def flushUpdates_def Let_def
          merge_updates_idem)
qed

text \<open>
  C6. In a continuation run, a progress update for an index \<open>i\<close> in range records
  \<open>contexts[i] + "\n\n" + content\<close> as the pending content of \<open>i\<close>, where the content
  of the update made for an applied choice is the text accumulated for that index so far.
  When the handler starts (its guard passes), the stream ends normally and the page has
  received the reports of the run in order, with turns of the event loop anywhere in
  between, then for every index whose accumulated text is not empty the content of the
  result, on the page and in the saved item, is \<open>contexts[i] + "\n\n"\<close> followed by
  the accumulated text.
\<close>

theorem continuation_appends_to_context:
  "(p_index p < length contexts \<longrightarrow>
      map_of (updateBuffer (onProgress_continue contexts t s p)) (p_index p)
        = Some (contexts ! p_index p @ [newline, newline] @ p_content p)) \<and>
   (applied (int (length contexts)) c \<longrightarrow>
      (let p = last (calls (foldl (apply_choice now (int (length contexts)) True)
                              (init_state (int (length contexts))) (cs @ [c])))
       in p_index p = nat (choice_index c) \<and>
          p_content p = deltas_for (nat (choice_index c)) (cs @ [c]) \<and>
          map_of (updateBuffer (onProgress_continue contexts t s p)) (nat (choice_index c))
            = Some (contexts ! nat (choice_index c) @ [newline, newline] @
                    deltas_for (nat (choice_index c)) (cs @ [c])))) \<and>
   (hasValidContent s \<and> \<not> isContinuing s \<and> \<not> isGenerating s \<and>
    contexts = map result_content (results s) \<and>
    snd (generateMultipleResponses decode now promptPrefix (Multiple contexts)
           (int totalCount) True None (Body (map Value chunks))) = (st, out) \<and>
    reports_of evs = calls st \<and> i < length contexts \<and> contentBuffers st ! i \<noteq> [] \<longrightarrow>
      (let final = handleContinueGenerate decode now promptPrefix totalCount
                     (Body (map Value chunks)) evs s
       in result_content (results final ! i)
            = contexts ! i @ [newline, newline] @ contentBuffers st ! i \<and>
          chatPageResults final = Some (results final) \<and>
          \<not> isLoading (results final ! i) \<and>
          length (results final) = length contexts))"
proof (intro conjI impI)
  assume "p_index p < length contexts"
  then show "map_of (updateBuffer (onProgress_continue contexts t s p)) (p_index p)
        = Some (contexts ! p_index p @ [newline, newline] @ p_content p)"
    by (rule continue_update_records_context)
next
  assume a: "applied (int (length contexts)) c"
  define q where "q = last (calls (foldl (apply_choice now (int (length contexts)) True)
                              (init_state (int (length contexts))) (cs @ [c])))"
  have idx: "p_index q = nat (choice_index c)"
    and cont: "p_content q = deltas_for (nat (choice_index c)) (cs @ [c])"
    unfolding q_def by (rule report_content_of_applied_choice [OF a])+
  have "p_index q < length contexts"
    using a by (simp add: idx applied_def nat_less_iff)
  from continue_update_records_context [OF this, of t s] idx cont
  show "let p = last (calls (foldl (apply_choice now (int (length contexts)) True)
                              (init_state (int (length contexts))) (cs @ [c])))
       in p_index p = nat (choice_index c) \<and>
          p_content p = deltas_for (nat (choice_index c)) (cs @ [c]) \<and>
          map_of (updateBuffer (onProgress_continue contexts t s p)) (nat (choice_index c))
            = Some (contexts ! nat (choice_index c) @ [newline, newline] @
                    deltas_for (nat (choice_index c)) (cs @ [c]))"
    unfolding Let_def q_def [symmetric] by simp
next
  assume h: "hasValidContent s \<and> \<not> isContinuing s \<and> \<not> isGenerating s \<and>
    contexts = map result_content (results s) \<and>
    snd (generateMultipleResponses decode now promptPrefix (Multiple contexts)
           (int totalCount) True None (Body (map Value chunks))) = (st, out) \<and>
    reports_of evs = calls st \<and> i < length contexts \<and> contentBuffers st ! i \<noteq> []"
  then have g: "hasValidContent s" "\<not> isContinuing s" "\<not> isGenerating s"
    and ctx: "contexts = map result_content (results s)"
    and run: "snd (generateMultipleResponses decode now promptPrefix (Multiple contexts)
           (int totalCount) True None (Body (map Value chunks))) = (st, out)"
    and sched: "reports_of evs = calls st"
    and i: "i < length contexts" "contentBuffers st ! i \<noteq> []"
    by blast+
  from continue_run_final [OF g ctx run sched i]
  show "let final = handleContinueGenerate decode now promptPrefix totalCount
                     (Body (map Value chunks)) evs s
       in result_content (results final ! i)
            = contexts ! i @ [newline, newline] @ contentBuffers st ! i \<and>
          chatPageResults final = Some (results final) \<and>
          \<not> isLoading (results final ! i) \<and>
          length (results final) = length contexts"
    unfolding Let_def by blast
qed

theorem continuation_appends_to_context_witness:
  "hasValidContent scenario_C_page \<and> \<not> isContinuing scenario_C_page \<and>
   \<not> isGenerating scenario_C_page \<and>
   [''foo'', ''bar''] = map result_content (results scenario_C_page) \<and>
   reports_of scenario_C_events =
     calls (fst (snd (generateMultipleResponses scenario_decode (\<lambda>k. 1000 * int k) ''P''
       (Multiple [''foo'', ''bar'']) 8 True None (Body (map Value scenario_chunks))))) \<and>
   (1::nat) < length [''foo'', ''bar''] \<and>
   result_content (results (handleContinueGenerate scenario_decode (\<lambda>k. 1000 * int k) ''P'' 8
      (Body (map Value scenario_chunks)) scenario_C_events scenario_C_page) ! 1)
     = ''bar'' @ [newline, newline] @ ''cd''"
proof -
  define st where "st =
     \<lparr>contentBuffers = [''abc'', ''cd''], totalTokenCount = 5, clock_reads = 5,
      calls =
       [\<lparr>p_index = 0, p_content = ''ab'', p_isComplete = False, p_tokenRate = 2, p_totalTokens = 2\<rparr>,
        \<lparr>p_index = 1, p_content = ''cd'', p_isComplete = False, p_tokenRate = 2, p_totalTokens = 4\<rparr>,
        \<lparr>p_index = 0, p_content = ''abc'', p_isComplete = False, p_tokenRate = 2, p_totalTokens = 5\<rparr>,
        \<lparr>p_index = 0, p_content = ''abc'', p_isComplete = True, p_tokenRate = 1, p_totalTokens = 5\<rparr>,
        \<lparr>p_index = 1, p_content = ''cd'', p_isComplete = True, p_tokenRate = 1, p_totalTokens = 5\<rparr>]\<rparr>"
  have run: "snd (generateMultipleResponses scenario_decode (\<lambda>k. 1000 * int k) ''P''
       (Multiple [''foo'', ''bar'']) (int 8) True None (Body (map Value scenario_chunks)))
     = (st, Inr [''abc'', ''cd''])"
    unfolding st_def by code_simp
  have guard: "hasValidContent scenario_C_page \<and> \<not> isContinuing scenario_C_page \<and>
       \<not> isGenerating scenario_C_page"
    by (simp add: hasValidContent_def scenario_C_page_def fresh_page_def)
  have ctx: "[''foo'', ''bar''] = map result_content (results scenario_C_page)"
    by (simp add: scenario_C_page_def fresh_page_def)
  have sched: "reports_of scenario_C_events = calls st"
    by (simp add: scenario_C_events_def st_def)
  have i: "(1::nat) < length [''foo'', ''bar'']" "contentBuffers st ! 1 \<noteq> []"
    by (simp_all add: st_def)
  have hyps: "hasValidContent scenario_C_page \<and> \<not> isContinuing scenario_C_page \<and>
    \<not> isGenerating scenario_C_page \<and>
    [''foo'', ''bar''] = map result_content (results scenario_C_page) \<and>
    snd (generateMultipleResponses scenario_decode (\<lambda>k. 1000 * int k) ''P''
           (Multiple [''foo'', ''bar'']) (int 8) True None (Body (map Value scenario_chunks)))
      = (st, Inr [''abc'', ''cd'']) \<and>
    reports_of scenario_C_events = calls st \<and> 1 < length [''foo'', ''bar''] \<and>
    contentBuffers st ! 1 \<noteq> []"
    using guard ctx run sched i by blast
  note inst = continuation_appends_to_context [where contexts = "[''foo'', ''bar'']"
      and s = scenario_C_page and decode = scenario_decode and now = "\<lambda>k. 1000 * int k"
      and promptPrefix = "''P''" and totalCount = 8 and chunks = scenario_chunks and st = st
      and out = "Inr [''abc'', ''cd'']" and evs = scenario_C_events and i = 1,
      THEN conjunct2, THEN conjunct2, THEN mp, OF hyps, unfolded Let_def, THEN conjunct1]
  have res: "result_content (results (handleContinueGenerate scenario_decode
      (\<lambda>k. 1000 * int k) ''P'' 8 (Body (map Value scenario_chunks)) scenario_C_events
      scenario_C_page) ! 1) = ''bar'' @ [newline, newline] @ ''cd''"
    using inst by (simp add: st_def)
  have run': "calls (fst (snd (generateMultipleResponses scenario_decode (\<lambda>k. 1000 * int k) ''P''
       (Multiple [''foo'', ''bar'']) 8 True None (Body (map Value scenario_chunks))))) = calls st"
    using run by simp
  from guard ctx sched i(1) res show ?thesis
    unfolding run' by blast
qed

end
